theory Spec2Isabelle
  imports Main "HOL-Library.Multiset" "HOL-Library.Sublist"
begin

section \<open>Go values\<close>

text \<open>
  A Go pointer is either \<open>nil\<close> or the address of an allocated object. The objects of
  \<open>photos/upload.go\<close> are never written after their allocation, so a pointer carries its
  address (which gives it its identity) together with the object found there.
\<close>

datatype 'a ptr = NilPtr | Ptr (addr: nat) (deref: 'a)

text \<open>A slice is \<open>nil\<close> or holds elements; \<open>len\<close> of both \<open>nil\<close> and an empty slice is 0.\<close>

datatype 'a slice = NilSlice | Slice "'a list"

fun elems :: "'a slice \<Rightarrow> 'a list" where
  "elems NilSlice = []"
| "elems (Slice xs) = xs"

definition len :: "'a slice \<Rightarrow> nat" where
  "len s = length (elems s)"

text \<open>\<open>make([]T, 0, n)\<close>: an empty slice that is not \<open>nil\<close>, whatever the capacity.\<close>

definition make_slice :: "nat \<Rightarrow> 'a slice" where
  "make_slice capacity = Slice []"

text \<open>\<open>append(s, x)\<close>.\<close>

fun append_slice :: "'a slice \<Rightarrow> 'a \<Rightarrow> 'a slice" where
  "append_slice NilSlice x = Slice [x]"
| "append_slice (Slice xs) x = Slice (xs @ [x])"

text \<open>
  A value of Go's \<open>error\<close> interface: \<open>None\<close> is \<open>nil\<close>, \<open>Some m\<close> an error whose
  \<open>Error()\<close> text is \<open>m\<close>.
\<close>

type_synonym error = "string option"

text \<open>Run-time panics of the Go operations the file uses.\<close>

datatype panic = NilDereference | SendOnClosedChannel | NegativeWaitGroupCounter

subsection \<open>Formatting\<close>

text \<open>The verb \<open>%d\<close> of \<open>fmt\<close>: a decimal numeral, with a minus sign when negative.\<close>

function digits :: "nat \<Rightarrow> string" where
  "digits n =
     (if n < 10 then [''0123456789'' ! n]
      else digits (n div 10) @ [''0123456789'' ! (n mod 10)])"
  by pat_completeness auto
termination
  by (relation "measure id") auto

declare digits.simps [simp del]

definition itoa :: "int \<Rightarrow> string" where
  "itoa i = (if i < 0 then CHR ''-'' # digits (nat (- i)) else digits (nat i))"

subsection \<open>\<open>path.Base\<close>\<close>

text \<open>
  \<open>strings.LastIndex(s, "/")\<close>, for a separator of one byte: the index of its last
  occurrence, \<open>None\<close> where Go returns \<open>-1\<close>.
\<close>

fun LastIndex :: "string \<Rightarrow> char \<Rightarrow> nat option" where
  "LastIndex [] c = None"
| "LastIndex (x # xs) c =
     (case LastIndex xs c of
        Some i \<Rightarrow> Some (Suc i)
      | None \<Rightarrow> if x = c then Some 0 else None)"

text \<open>
  \<open>path.Base\<close> of Go's standard library (package \<open>path\<close>, whose only separator is the
  slash): the empty path gives \<open>"."\<close>; trailing slashes are stripped; what follows the last
  slash is kept; a path of slashes only gives \<open>"/"\<close>.
\<close>

definition Base :: "string \<Rightarrow> string" where
  "Base path =
     (if path = [] then ''.''
      else let path1 = rev (dropWhile (\<lambda>c. c = CHR ''/'') (rev path));
               path2 = (case LastIndex path1 (CHR ''/'') of
                          Some i \<Rightarrow> drop (i + 1) path1
                        | None \<Rightarrow> path1)
           in if path2 = [] then ''/'' else path2)"

section \<open>The data of \<open>photoslibrary\<close>\<close>

record SimpleMediaItem =
  UploadToken :: string

record NewMediaItem =
  Description :: string
  SimpleMediaItem :: "SimpleMediaItem ptr"

record Album =
  Id :: string

record BatchCreateMediaItemsRequest =
  AlbumId :: string
  NewMediaItems :: "NewMediaItem ptr slice"

text \<open>
  Modelled from the spec: the declarations of the results of a batch create are in the
  imported package \<open>photoslibrary\<close>; section 6 of the specification gives their shape,
  \<open>{newMediaItemResults: [{uploadToken, status: {code, message}}]}\<close>.
\<close>

record Status =
  Code :: int
  Message :: string

record NewMediaItemResult =
  Status :: Status
  UploadToken :: string

record BatchCreateMediaItemsResponse =
  NewMediaItemResults :: "NewMediaItemResult list"

section \<open>The world outside the program\<close>

text \<open>
  Files, requests and response bodies are handles. What the operating system, the HTTP
  client and the remote service answer is a parameter of every function: an answer is
  \<open>Inl\<close> the text of the error or \<open>Inr\<close> the value. An answer depends on the arguments
  of the call only, as the answers of a test double do: two uploads of one path get the
  same answers.
\<close>

record request =
  Method :: string
  URL :: string
  RequestBody :: nat
  Header :: "(string \<times> string) list"

record response =
  StatusCode :: int
  Body :: nat

record world =
  os_Open :: "string \<Rightarrow> string + nat"
  http_NewRequest :: "string \<Rightarrow> string \<Rightarrow> nat \<Rightarrow> string + request"
  client_Do :: "request \<Rightarrow> string + response"
  ioutil_ReadAll :: "nat \<Rightarrow> string + string"
  BatchCreate_Do :: "BatchCreateMediaItemsRequest \<Rightarrow> string + BatchCreateMediaItemsResponse"

text \<open>The effects of a call that an observer can see, in the order they happen.\<close>

datatype event =
    Open nat
  | Close nat
  | Do request
  | ReadAll nat
  | CloseBody nat
  | Printf string

section \<open>\<open>UploadFile\<close>\<close>

definition uploadConcurrency :: nat where
  "uploadConcurrency = 3"

definition apiVersion :: string where
  "apiVersion = ''v1''"

definition basePath :: string where
  "basePath = ''https://photoslibrary.googleapis.com/''"

text \<open>
  A function returns with the effects it had so far followed by its deferred calls, the
  last deferred first.
\<close>

definition return_with :: "event list \<Rightarrow> event list \<Rightarrow> 'r \<Rightarrow> 'r \<times> event list" where
  "return_with done deferred r = (r, done @ deferred)"

text \<open>
  \<open>UploadFile w a filepath\<close>, where \<open>a\<close> is the next free address: a successful call
  allocates the \<open>SimpleMediaItem\<close> at \<open>a\<close> and the \<open>NewMediaItem\<close> at \<open>a + 1\<close>.
\<close>

definition UploadFile ::
  "world \<Rightarrow> nat \<Rightarrow> string \<Rightarrow> (NewMediaItem ptr \<times> error) \<times> event list" where
  "UploadFile w a filepath =
     (case os_Open w filepath of
        Inl err \<Rightarrow>
          return_with [] []
            (NilPtr, Some (''Could not open file '' @ filepath @ '': '' @ err))
      | Inr r \<Rightarrow>
          let deferred1 = [Close r];
              filename = Base filepath
          in
          (case http_NewRequest w ''POST'' (basePath @ apiVersion @ ''/uploads'') r of
             Inl err \<Rightarrow>
               return_with [Open r] deferred1
                 (NilPtr, Some (''Could not create a request for uploading file '' @ filepath
                                @ '': '' @ err))
           | Inr req0 \<Rightarrow>
               let req = req0\<lparr>Header := Header req0 @ [(''X-Goog-Upload-File-Name'', filename)]\<rparr>;
                   sofar = [Open r, Printf (''Uploading '' @ filepath), Do req]
               in
               (case client_Do w req of
                  Inl err \<Rightarrow>
                    return_with sofar deferred1
                      (NilPtr, Some (''Could not send a request for uploading file '' @ filepath
                                     @ '': '' @ err))
                | Inr res \<Rightarrow>
                    let deferred2 = CloseBody (Body res) # deferred1 in
                    (case ioutil_ReadAll w (Body res) of
                       Inl err \<Rightarrow>
                         return_with (sofar @ [ReadAll (Body res)]) deferred2
                           (NilPtr, Some (''Could not read the response body while uploading file ''
                                          @ filepath @ '': status='' @ itoa (StatusCode res)
                                          @ '', '' @ err))
                     | Inr body \<Rightarrow>
                         if StatusCode res \<noteq> 200 then
                           return_with (sofar @ [ReadAll (Body res)]) deferred2
                             (NilPtr, Some (''Could not upload file '' @ filepath @ '': status=''
                                            @ itoa (StatusCode res) @ '', body='' @ body))
                         else
                           return_with (sofar @ [ReadAll (Body res)]) deferred2
                             (Ptr (a + 1)
                                \<lparr>Description = filename,
                                 SimpleMediaItem = Ptr a \<lparr>SimpleMediaItem.UploadToken = body\<rparr>\<rparr>,
                              None)))))"

section \<open>\<open>Append\<close>\<close>

text \<open>
  \<open>findMediaItemByUploadToken\<close>: the range loop returns at the first item whose token is
  the one looked for, and \<open>nil\<close> after the last item. Reading
  \<open>mediaItem.SimpleMediaItem.UploadToken\<close> through a \<open>nil\<close> pointer panics.
\<close>

fun findMediaItemByUploadToken ::
  "NewMediaItem ptr list \<Rightarrow> string \<Rightarrow> panic + NewMediaItem ptr" where
  "findMediaItemByUploadToken [] uploadToken = Inr NilPtr"
| "findMediaItemByUploadToken (mediaItem # rest) uploadToken =
     (case mediaItem of
        NilPtr \<Rightarrow> Inl NilDereference
      | Ptr _ m \<Rightarrow>
          (case SimpleMediaItem m of
             NilPtr \<Rightarrow> Inl NilDereference
           | Ptr _ simple \<Rightarrow>
               if SimpleMediaItem.UploadToken simple = uploadToken then Inr mediaItem
               else findMediaItemByUploadToken rest uploadToken))"

text \<open>The body of the loop over the results: the lines it prints, or a panic.\<close>

definition reconcile ::
  "NewMediaItem ptr list \<Rightarrow> NewMediaItemResult \<Rightarrow> panic + string list" where
  "reconcile mediaItems result =
     (if Code (Status result) \<noteq> 0 then
        (case findMediaItemByUploadToken mediaItems (NewMediaItemResult.UploadToken result) of
           Inl p \<Rightarrow> Inl p
         | Inr NilPtr \<Rightarrow>
             Inr [''Error while adding files: '' @ Message (Status result) @ '' (''
                  @ itoa (Code (Status result)) @ '')'']
         | Inr (Ptr _ mediaItem) \<Rightarrow>
             Inr [''Skipped '' @ Description mediaItem @ '': '' @ Message (Status result)
                  @ '' ('' @ itoa (Code (Status result)) @ '')''])
      else Inr [])"

text \<open>
  The loop: the lines printed so far, and the panic that ended it if one did.
\<close>

fun reconcile_all ::
  "NewMediaItem ptr list \<Rightarrow> NewMediaItemResult list \<Rightarrow> panic option \<times> string list" where
  "reconcile_all mediaItems [] = (None, [])"
| "reconcile_all mediaItems (result # results) =
     (case reconcile mediaItems result of
        Inl p \<Rightarrow> (Some p, [])
      | Inr ls \<Rightarrow>
          (case reconcile_all mediaItems results of (p, ls') \<Rightarrow> (p, ls @ ls')))"

text \<open>The request of \<open>Append\<close>: all the items, and the album's identifier if there is one.\<close>

definition batch_request ::
  "Album ptr \<Rightarrow> NewMediaItem ptr slice \<Rightarrow> BatchCreateMediaItemsRequest" where
  "batch_request album mediaItems =
     (let req = \<lparr>AlbumId = [], NewMediaItems = mediaItems\<rparr>
      in case album of NilPtr \<Rightarrow> req | Ptr _ al \<Rightarrow> req\<lparr>AlbumId := Id al\<rparr>)"

text \<open>
  \<open>Append\<close> returns \<open>Inr\<close> its error (\<open>None\<close> for \<open>nil\<close>), or \<open>Inl\<close> when it panics, and the
  lines it printed on the log.
\<close>

definition Append ::
  "world \<Rightarrow> Album ptr \<Rightarrow> NewMediaItem ptr slice \<Rightarrow> (panic + error) \<times> string list" where
  "Append w album mediaItems =
     (case BatchCreate_Do w (batch_request album mediaItems) of
        Inl err \<Rightarrow> (Inr (Some err), [])
      | Inr batch \<Rightarrow>
          (case reconcile_all (elems mediaItems) (NewMediaItemResults batch) of
             (Some p, ls) \<Rightarrow> (Inl p, ls)
           | (None, ls) \<Rightarrow> (Inr None, ls)))"

section \<open>\<open>UploadFiles\<close>\<close>

text \<open>
  The staged item a pointer leads to, as the description and the upload token; \<open>None\<close>
  when a \<open>nil\<close> pointer is on the way.
\<close>

fun staged :: "NewMediaItem ptr \<Rightarrow> (string \<times> string) option" where
  "staged NilPtr = None"
| "staged (Ptr _ m) =
     (case SimpleMediaItem m of
        NilPtr \<Rightarrow> None
      | Ptr _ simple \<Rightarrow> Some (Description m, SimpleMediaItem.UploadToken simple))"

text \<open>Whether a call of \<open>UploadFile\<close> on a path returns a \<open>nil\<close> error, and what it stages.\<close>

definition succeeds :: "world \<Rightarrow> string \<Rightarrow> bool" where
  "succeeds w filepath = (snd (fst (UploadFile w 0 filepath)) = None)"

definition uploaded :: "world \<Rightarrow> string \<Rightarrow> (string \<times> string) option" where
  "uploaded w filepath = staged (fst (fst (UploadFile w 0 filepath)))"

text \<open>
  The goroutines of \<open>UploadFiles\<close> take turns, each turn one step of one goroutine. A
  worker is at the head of its loop (\<open>Receiving\<close> from \<open>uploadQueue\<close>), inside its call of
  \<open>UploadFile\<close> (\<open>Uploading\<close>), at its send on \<open>aggregateQueue\<close> (\<open>Sending\<close>), or has left
  the loop and run the deferred \<open>workerGroup.Done()\<close> (\<open>Exited\<close>).
\<close>

datatype worker = Receiving | Uploading string | Sending "NewMediaItem ptr" | Exited

record state =
  uploadQueue :: "string list"
  aggregateQueue :: "NewMediaItem ptr list"
  aggregateCap :: nat
  aggregateClosed :: bool
  workerGroup :: nat
  workers :: "worker list"
  mediaItems :: "NewMediaItem ptr slice"
  returned :: "NewMediaItem ptr slice option"
  heapNext :: nat
  effects :: "event list"
  panicked :: "panic option"

text \<open>
  The state once the main goroutine has filled and closed \<open>uploadQueue\<close>, printed the
  number of queued files, started the workers and the goroutine that waits for them, and
  made \<open>mediaItems\<close>. The sends that fill \<open>uploadQueue\<close> never block: its capacity is the
  number of paths.
\<close>

definition UploadFiles_start :: "string list \<Rightarrow> nat \<Rightarrow> state" where
  "UploadFiles_start filepaths a =
     \<lparr>uploadQueue = filepaths,
      aggregateQueue = [],
      aggregateCap = length filepaths,
      aggregateClosed = False,
      workerGroup = uploadConcurrency,
      workers = replicate uploadConcurrency Receiving,
      mediaItems = make_slice (length filepaths),
      returned = None,
      heapNext = a,
      effects = [Printf (''Queued '' @ itoa (int (length filepaths)) @ '' file(s)'')],
      panicked = None\<rparr>"

text \<open>
  One step of worker \<open>i\<close> (\<open>uploadWorker\<close>); \<open>None\<close> when the worker is blocked or gone.
  A receive from the closed \<open>uploadQueue\<close> ends the loop when the queue is empty.
\<close>

definition worker_step :: "world \<Rightarrow> nat \<Rightarrow> state \<Rightarrow> state option" where
  "worker_step w i s =
     (if length (workers s) \<le> i then None
      else
        (case workers s ! i of
           Receiving \<Rightarrow>
             (case uploadQueue s of
                [] \<Rightarrow>
                  if workerGroup s = 0 then Some (s\<lparr>panicked := Some NegativeWaitGroupCounter\<rparr>)
                  else Some (s\<lparr>workers := (workers s)[i := Exited],
                               workerGroup := workerGroup s - 1\<rparr>)
              | filepath # rest \<Rightarrow>
                  Some (s\<lparr>uploadQueue := rest, workers := (workers s)[i := Uploading filepath]\<rparr>))
         | Uploading filepath \<Rightarrow>
             (case UploadFile w (heapNext s) filepath of
                ((mediaItem, Some err), evs) \<Rightarrow>
                  Some (s\<lparr>effects := effects s @ evs
                               @ [Printf (''Error while uploading file '' @ filepath @ '': '' @ err)],
                          workers := (workers s)[i := Receiving]\<rparr>)
              | ((mediaItem, None), evs) \<Rightarrow>
                  Some (s\<lparr>effects := effects s @ evs,
                          heapNext := heapNext s + 2,
                          workers := (workers s)[i := Sending mediaItem]\<rparr>))
         | Sending mediaItem \<Rightarrow>
             if aggregateClosed s then Some (s\<lparr>panicked := Some SendOnClosedChannel\<rparr>)
             else if length (aggregateQueue s) < aggregateCap s then
               Some (s\<lparr>aggregateQueue := aggregateQueue s @ [mediaItem],
                       workers := (workers s)[i := Receiving]\<rparr>)
             else None
         | Exited \<Rightarrow> None))"

text \<open>The goroutine that waits for the workers and closes \<open>aggregateQueue\<close>.\<close>

definition supervisor_step :: "state \<Rightarrow> state option" where
  "supervisor_step s =
     (if workerGroup s = 0 \<and> \<not> aggregateClosed s then Some (s\<lparr>aggregateClosed := True\<rparr>)
      else None)"

text \<open>
  The main goroutine ranging over \<open>aggregateQueue\<close>: it appends what it receives, and
  returns \<open>mediaItems\<close> when the queue is closed and empty.
\<close>

definition collector_step :: "state \<Rightarrow> state option" where
  "collector_step s =
     (case returned s of
        Some r \<Rightarrow> None
      | None \<Rightarrow>
          (case aggregateQueue s of
             mediaItem # rest \<Rightarrow>
               Some (s\<lparr>aggregateQueue := rest,
                       mediaItems := append_slice (mediaItems s) mediaItem\<rparr>)
           | [] \<Rightarrow>
               if aggregateClosed s then Some (s\<lparr>returned := Some (mediaItems s)\<rparr>)
               else None))"

datatype actor = Worker nat | Supervisor | Collector

text \<open>A panic ends the program: nothing steps after it.\<close>

definition step :: "world \<Rightarrow> actor \<Rightarrow> state \<Rightarrow> state option" where
  "step w x s =
     (if panicked s \<noteq> None then None
      else
        (case x of
           Worker i \<Rightarrow> worker_step w i s
         | Supervisor \<Rightarrow> supervisor_step s
         | Collector \<Rightarrow> collector_step s))"

text \<open>A schedule is the list of the goroutines that step, in order.\<close>

fun exec :: "world \<Rightarrow> actor list \<Rightarrow> state \<Rightarrow> state option" where
  "exec w [] s = Some s"
| "exec w (x # xs) s = (case step w x s of None \<Rightarrow> None | Some s' \<Rightarrow> exec w xs s')"

subsection \<open>What the goroutines hold\<close>

fun uploading_of :: "worker \<Rightarrow> string list" where
  "uploading_of (Uploading filepath) = [filepath]"
| "uploading_of _ = []"

fun sending_of :: "worker \<Rightarrow> NewMediaItem ptr list" where
  "sending_of (Sending mediaItem) = [mediaItem]"
| "sending_of _ = []"

text \<open>The calls of \<open>UploadFile\<close> that have started and not returned.\<close>

definition in_flight :: "state \<Rightarrow> string list" where
  "in_flight s = concat (map uploading_of (workers s))"

text \<open>The paths not uploaded yet, and the items on their way to the result.\<close>

definition pending :: "state \<Rightarrow> string list" where
  "pending s = uploadQueue s @ in_flight s"

definition held :: "state \<Rightarrow> NewMediaItem ptr list" where
  "held s = elems (mediaItems s) @ aggregateQueue s @ concat (map sending_of (workers s))"

text \<open>A bound on the steps left, which every step lowers.\<close>

fun rank :: "worker \<Rightarrow> nat" where
  "rank Receiving = 1"
| "rank (Uploading filepath) = 4"
| "rank (Sending mediaItem) = 3"
| "rank Exited = 0"

definition remaining :: "state \<Rightarrow> nat" where
  "remaining s =
     4 * length (uploadQueue s) + sum_list (map rank (workers s)) + length (aggregateQueue s)
     + (if aggregateClosed s then 0 else 1) + (if returned s = None then 1 else 0)
     + (if panicked s = None then 1 else 0)"

section \<open>The vocabulary of the specification\<close>

text \<open>
  What can go wrong with one upload, read off the answers of the world: the file cannot
  be opened, the request cannot be made, the transfer fails, the body cannot be read, or
  the status is not 200. \<open>transfer\<close> gives the first of the four failures of the world that
  occurs, or the status and the body that came back.
\<close>

datatype failure = OpenFailed | RequestFailed | SendFailed | ReadFailed | BadStatus

definition transfer :: "world \<Rightarrow> string \<Rightarrow> failure + (int \<times> string)" where
  "transfer w filepath =
     (case os_Open w filepath of
        Inl e \<Rightarrow> Inl OpenFailed
      | Inr r \<Rightarrow>
          (case http_NewRequest w ''POST'' ''https://photoslibrary.googleapis.com/v1/uploads'' r of
             Inl e \<Rightarrow> Inl RequestFailed
           | Inr req \<Rightarrow>
               (case client_Do w
                       (req\<lparr>Header := Header req @ [(''X-Goog-Upload-File-Name'', Base filepath)]\<rparr>) of
                  Inl e \<Rightarrow> Inl SendFailed
                | Inr res \<Rightarrow>
                    (case ioutil_ReadAll w (Body res) of
                       Inl e \<Rightarrow> Inl ReadFailed
                     | Inr body \<Rightarrow> Inr (StatusCode res, body)))))"

definition failure_of :: "world \<Rightarrow> string \<Rightarrow> failure option" where
  "failure_of w filepath =
     (case transfer w filepath of
        Inl f \<Rightarrow> Some f
      | Inr (code, body) \<Rightarrow> if code = 200 then None else Some BadStatus)"

text \<open>The failure an error text tells of, read off how the text begins.\<close>

definition message_kind :: "error \<Rightarrow> failure option" where
  "message_kind err =
     (case err of
        None \<Rightarrow> None
      | Some m \<Rightarrow>
          if prefix ''Could not open file '' m then Some OpenFailed
          else if prefix ''Could not create a request for uploading file '' m then Some RequestFailed
          else if prefix ''Could not send a request for uploading file '' m then Some SendFailed
          else if prefix ''Could not read the response body while uploading file '' m
            then Some ReadFailed
          else if prefix ''Could not upload file '' m then Some BadStatus
          else None)"

text \<open>
  The base name of a path on a platform whose separator is \<open>sep\<close>: what follows the last
  separator.
\<close>

definition last_element :: "char \<Rightarrow> string \<Rightarrow> string" where
  "last_element sep path = rev (takeWhile (\<lambda>c. c \<noteq> sep) (rev path))"

text \<open>A submitted staged item: a pointer that leads to a description and a token.\<close>

definition well_formed :: "NewMediaItem ptr \<Rightarrow> bool" where
  "well_formed mediaItem = (staged mediaItem \<noteq> None)"

definition token_of :: "NewMediaItem ptr \<Rightarrow> string option" where
  "token_of mediaItem = map_option snd (staged mediaItem)"

text \<open>
  The log of a commit in the words of the specification: nothing for a result of status
  code 0; for another result, a skip line that names the submitted item with the
  result's token (the first one, should several have it), or a line with the message and
  the code alone when no submitted item has the token.
\<close>

definition commit_log_line :: "NewMediaItem ptr list \<Rightarrow> NewMediaItemResult \<Rightarrow> string list" where
  "commit_log_line submitted result =
     (if Code (Status result) = 0 then []
      else
        (case filter (\<lambda>x. token_of x = Some (NewMediaItemResult.UploadToken result)) submitted of
           [] \<Rightarrow>
             [''Error while adding files: '' @ Message (Status result) @ '' (''
              @ itoa (Code (Status result)) @ '')'']
         | x # _ \<Rightarrow>
             [''Skipped '' @ Description (deref x) @ '': '' @ Message (Status result) @ '' (''
              @ itoa (Code (Status result)) @ '')'']))"

section \<open>What holds in every state of \<open>UploadFiles\<close>\<close>

text \<open>
  The control of the goroutines: there are \<open>uploadConcurrency\<close> workers; the counter of
  \<open>workerGroup\<close> is the number of workers that have not exited; \<open>aggregateQueue\<close> is
  closed only when the counter is 0; a worker has exited only when \<open>uploadQueue\<close> is
  empty; nothing has panicked; \<open>mediaItems\<close> is not \<open>nil\<close>; and what is returned is
  \<open>mediaItems\<close>, once \<open>aggregateQueue\<close> is closed and empty.
\<close>

definition control_ok :: "state \<Rightarrow> bool" where
  "control_ok s =
     (length (workers s) = uploadConcurrency
      \<and> workerGroup s = length (filter (\<lambda>x. x \<noteq> Exited) (workers s))
      \<and> (aggregateClosed s \<longrightarrow> workerGroup s = 0)
      \<and> (Exited \<in> set (workers s) \<longrightarrow> uploadQueue s = [])
      \<and> panicked s = None
      \<and> mediaItems s \<noteq> NilSlice
      \<and> (\<forall>r. returned s = Some r \<longrightarrow>
            r = mediaItems s \<and> aggregateQueue s = [] \<and> aggregateClosed s))"

text \<open>
  The items on their way: each leads to a description and a token, lies below the next
  free address, and no two have the same address.
\<close>

definition held_ok :: "nat \<Rightarrow> NewMediaItem ptr list \<Rightarrow> bool" where
  "held_ok n xs = ((\<forall>x\<in>set xs. well_formed x \<and> addr x < n) \<and> distinct (map addr xs))"

text \<open>
  The account of the paths: the items on their way and the paths not uploaded yet fit in
  \<open>aggregateQueue\<close>, and the items on their way together with what the successful pending
  paths will stage are what the successful paths of the input stage.
\<close>

definition items_ok :: "world \<Rightarrow> string list \<Rightarrow> state \<Rightarrow> bool" where
  "items_ok w filepaths s =
     (aggregateCap s = length filepaths
      \<and> length (pending s) + length (held s) \<le> length filepaths
      \<and> mset (map staged (held s)) + mset (map (uploaded w) (filter (succeeds w) (pending s)))
          = mset (map (uploaded w) (filter (succeeds w) filepaths))
      \<and> held_ok (heapNext s) (held s))"

definition invariant :: "world \<Rightarrow> string list \<Rightarrow> state \<Rightarrow> bool" where
  "invariant w filepaths s = (control_ok s \<and> items_ok w filepaths s)"

section \<open>A test double\<close>

text \<open>
  A world for the examples: \<open>bad.jpg\<close> cannot be opened, \<open>big.jpg\<close> is refused with
  status 413, \<open>ok2.jpg\<close> is staged under the token \<open>t2\<close> and every other file under \<open>t1\<close>.
  A batch create into the album \<open>gone\<close> fails; any other one accepts \<open>t1\<close>, rejects \<open>t2\<close>
  with code 5, and reports code 3 on a token \<open>t9\<close>.
\<close>

definition test_world :: world where
  "test_world =
     \<lparr>os_Open = (\<lambda>p. if p = ''bad.jpg'' then Inl ''no such file or directory'' else Inr 3),
      http_NewRequest = (\<lambda>m u r. Inr \<lparr>Method = m, URL = u, RequestBody = r, Header = []\<rparr>),
      client_Do = (\<lambda>req.
         if map_of (Header req) ''X-Goog-Upload-File-Name'' = Some ''ok2.jpg''
           then Inr \<lparr>StatusCode = 200, Body = 2\<rparr>
         else if map_of (Header req) ''X-Goog-Upload-File-Name'' = Some ''big.jpg''
           then Inr \<lparr>StatusCode = 413, Body = 3\<rparr>
         else Inr \<lparr>StatusCode = 200, Body = 1\<rparr>),
      ioutil_ReadAll = (\<lambda>b. if b = 1 then Inr ''t1'' else if b = 2 then Inr ''t2''
                             else Inr ''too large''),
      BatchCreate_Do = (\<lambda>req.
         if AlbumId req = ''gone'' then Inl ''network error''
         else Inr \<lparr>NewMediaItemResults =
                [\<lparr>Status = \<lparr>Code = 0, Message = ''OK''\<rparr>, UploadToken = ''t1''\<rparr>,
                 \<lparr>Status = \<lparr>Code = 5, Message = ''NOT_FOUND''\<rparr>, UploadToken = ''t2''\<rparr>,
                 \<lparr>Status = \<lparr>Code = 3, Message = ''INVALID''\<rparr>, UploadToken = ''t9''\<rparr>]\<rparr>)\<rparr>"

definition test_items :: "NewMediaItem ptr list" where
  "test_items =
     [Ptr 1 \<lparr>Description = ''ok1.jpg'', SimpleMediaItem = Ptr 0 \<lparr>SimpleMediaItem.UploadToken = ''t1''\<rparr>\<rparr>,
      Ptr 3 \<lparr>Description = ''ok2.jpg'', SimpleMediaItem = Ptr 2 \<lparr>SimpleMediaItem.UploadToken = ''t2''\<rparr>\<rparr>,
      Ptr 5 \<lparr>Description = ''copy.jpg'', SimpleMediaItem = Ptr 4 \<lparr>SimpleMediaItem.UploadToken = ''t2''\<rparr>\<rparr>]"

definition windows_path :: string where
  "windows_path = ''dir'' @ [CHR 0x5C] @ ''photo.jpg''"

text \<open>
  A schedule for the paths \<open>ok1.jpg\<close>, \<open>bad.jpg\<close>, \<open>ok2.jpg\<close>: each worker takes one path,
  the third worker finishes first, and the main goroutine collects at the end.
\<close>

definition test_paths :: "string list" where
  "test_paths = [''ok1.jpg'', ''bad.jpg'', ''ok2.jpg'']"

definition test_schedule :: "actor list" where
  "test_schedule =
     [Worker 0, Worker 1, Worker 2, Worker 2, Worker 2, Worker 1, Worker 0, Worker 0,
      Worker 2, Worker 1, Worker 0, Supervisor, Collector, Collector, Collector]"

text \<open>A schedule for paths that all fail, and for no path at all.\<close>

definition failing_schedule :: "actor list" where
  "failing_schedule =
     [Worker 0, Worker 1, Worker 1, Worker 0, Worker 2, Worker 0, Worker 1, Supervisor,
      Collector]"

definition idle_schedule :: "actor list" where
  "idle_schedule = [Worker 2, Worker 0, Worker 1, Supervisor, Collector]"

section \<open>What \<open>UploadFile\<close> returns\<close>

lemma UploadFile_result:
  "fst (UploadFile w a filepath) =
     (case os_Open w filepath of
        Inl e \<Rightarrow> (NilPtr, Some (''Could not open file '' @ filepath @ '': '' @ e))
      | Inr r \<Rightarrow>
          (case http_NewRequest w ''POST'' ''https://photoslibrary.googleapis.com/v1/uploads'' r of
             Inl e \<Rightarrow>
               (NilPtr, Some (''Could not create a request for uploading file '' @ filepath @ '': '' @ e))
           | Inr req \<Rightarrow>
               (case client_Do w
                       (req\<lparr>Header := Header req @ [(''X-Goog-Upload-File-Name'', Base filepath)]\<rparr>) of
                  Inl e \<Rightarrow>
                    (NilPtr, Some (''Could not send a request for uploading file '' @ filepath @ '': '' @ e))
                | Inr res \<Rightarrow>
                    (case ioutil_ReadAll w (Body res) of
                       Inl e \<Rightarrow>
                         (NilPtr, Some (''Could not read the response body while uploading file ''
                                        @ filepath @ '': status='' @ itoa (StatusCode res) @ '', '' @ e))
                     | Inr body \<Rightarrow>
                         if StatusCode res \<noteq> 200 then
                           (NilPtr, Some (''Could not upload file '' @ filepath @ '': status=''
                                          @ itoa (StatusCode res) @ '', body='' @ body))
                         else
                           (Ptr (a + 1)
                              \<lparr>Description = Base filepath,
                               SimpleMediaItem = Ptr a \<lparr>SimpleMediaItem.UploadToken = body\<rparr>\<rparr>,
                            None)))))"
  by (simp add: UploadFile_def return_with_def Let_def basePath_def apiVersion_def
           split: sum.splits)

lemma UploadFile_item_xor_error:
  "(fst (fst (UploadFile w a filepath)) = NilPtr) = (snd (fst (UploadFile w a filepath)) \<noteq> None)"
  by (simp add: UploadFile_result split: sum.splits)

lemma error_iff_failure:
  "(snd (fst (UploadFile w a filepath)) = None) = (failure_of w filepath = None)"
  by (simp add: UploadFile_result failure_of_def transfer_def split: sum.splits)

lemma message_kind_UploadFile:
  "message_kind (snd (fst (UploadFile w a filepath))) = failure_of w filepath"
  by (simp add: UploadFile_result failure_of_def transfer_def message_kind_def split: sum.splits)

lemma sublist_after_chars: "sublist xs ys \<Longrightarrow> sublist xs (c # ys)"
  by (simp add: sublist_Cons_right)

lemma sublist_at_front: "sublist xs (xs @ ys)"
  by (rule prefix_imp_sublist) simp

lemma error_names_path:
  assumes "snd (fst (UploadFile w a filepath)) = Some m"
  shows "sublist filepath m"
  using assms
  by (auto simp: UploadFile_result sublist_at_front split: sum.splits if_splits
           intro!: sublist_after_chars)

lemma bad_status_error:
  assumes "transfer w filepath = Inr (code, body)" and "code \<noteq> 200"
  shows "\<exists>m. snd (fst (UploadFile w a filepath)) = Some m \<and> sublist (itoa code) m \<and> sublist body m"
proof -
  let ?m = "''Could not upload file '' @ filepath @ '': status='' @ itoa code @ '', body='' @ body"
  have "snd (fst (UploadFile w a filepath)) = Some ?m"
    using assms by (auto simp: UploadFile_result transfer_def split: sum.splits)
  moreover have "sublist (itoa code) ?m"
    using sublist_appendI [of "itoa code" "''Could not upload file '' @ filepath @ '': status=''" "'', body='' @ body"]
    by simp
  moreover have "sublist body ?m"
    using sublist_appendI [of body "''Could not upload file '' @ filepath @ '': status='' @ itoa code @ '', body=''" "[]"]
    by simp
  ultimately show ?thesis by blast
qed

lemma success_iff_200:
  "(snd (fst (UploadFile w a filepath)) = None) = (\<exists>body. transfer w filepath = Inr (200, body))"
  by (auto simp: UploadFile_result transfer_def split: sum.splits)

lemma success_item:
  "transfer w filepath = Inr (200, body) \<Longrightarrow>
   fst (UploadFile w a filepath) =
     (Ptr (a + 1) \<lparr>Description = Base filepath,
                   SimpleMediaItem = Ptr a \<lparr>SimpleMediaItem.UploadToken = body\<rparr>\<rparr>, None)"
  by (auto simp: UploadFile_result transfer_def split: sum.splits)

text \<open>
  C9. \<open>UploadFile\<close> returns either an item and a \<open>nil\<close> error, or a \<open>nil\<close> item and an
  error: the item is \<open>nil\<close> exactly when the error is not.
\<close>

theorem UploadFile_item_or_error:
  "(fst (fst (UploadFile w a filepath)) = NilPtr) = (snd (fst (UploadFile w a filepath)) \<noteq> None)"
  by (simp add: UploadFile_result split: sum.splits)

text \<open>
  C6. \<open>UploadFile\<close> returns an error in exactly the five cases of \<open>failure_of\<close>: the file
  cannot be opened, the request cannot be made, the transfer fails, the body cannot be
  read, the status is not 200. The error comes with a \<open>nil\<close> item and its text contains
  the path; the text tells which of the cases occurred, so that calls failing in different
  cases return different errors; for a status other than 200 the text contains the status
  code and the body.
\<close>

theorem UploadFile_failure_errors:
  "(snd (fst (UploadFile w a filepath)) = None) = (failure_of w filepath = None)
   \<and> (\<forall>m. snd (fst (UploadFile w a filepath)) = Some m \<longrightarrow>
          fst (fst (UploadFile w a filepath)) = NilPtr \<and> sublist filepath m)
   \<and> message_kind (snd (fst (UploadFile w a filepath))) = failure_of w filepath
   \<and> (failure_of w filepath \<noteq> failure_of w' filepath' \<longrightarrow>
        snd (fst (UploadFile w a filepath)) \<noteq> snd (fst (UploadFile w' a' filepath')))
   \<and> (\<forall>code body. transfer w filepath = Inr (code, body) \<and> code \<noteq> 200 \<longrightarrow>
        (\<exists>m. snd (fst (UploadFile w a filepath)) = Some m
             \<and> sublist (itoa code) m \<and> sublist body m))"
proof (intro conjI allI impI)
  show "(snd (fst (UploadFile w a filepath)) = None) = (failure_of w filepath = None)"
    by (rule error_iff_failure)
  show "message_kind (snd (fst (UploadFile w a filepath))) = failure_of w filepath"
    by (rule message_kind_UploadFile)
  show "snd (fst (UploadFile w a filepath)) \<noteq> snd (fst (UploadFile w' a' filepath'))"
    if "failure_of w filepath \<noteq> failure_of w' filepath'"
    using that message_kind_UploadFile [of w a filepath] message_kind_UploadFile [of w' a' filepath']
    by auto
  show "fst (fst (UploadFile w a filepath)) = NilPtr"
    if "snd (fst (UploadFile w a filepath)) = Some m" for m
    using that by (simp add: UploadFile_item_xor_error)
  show "sublist filepath m" if "snd (fst (UploadFile w a filepath)) = Some m" for m
    using that by (rule error_names_path)
  show "\<exists>m. snd (fst (UploadFile w a filepath)) = Some m \<and> sublist (itoa code) m \<and> sublist body m"
    if "transfer w filepath = Inr (code, body) \<and> code \<noteq> 200" for code body
    using that bad_status_error by blast
qed

lemma test_big: "transfer test_world ''big.jpg'' = Inr (413, ''too large'')"
  by code_simp

lemma test_bad: "failure_of test_world ''bad.jpg'' = Some OpenFailed"
  by code_simp

lemma test_big_error:
  "fst (UploadFile test_world 0 ''big.jpg'')
     = (NilPtr, Some ''Could not upload file big.jpg: status=413, body=too large'')"
  by code_simp

theorem UploadFile_failure_errors_witness:
  "snd (fst (UploadFile test_world 0 ''big.jpg''))
     = Some ''Could not upload file big.jpg: status=413, body=too large''
   \<and> failure_of test_world ''big.jpg'' = Some BadStatus
   \<and> fst (fst (UploadFile test_world 0 ''big.jpg'')) = NilPtr
   \<and> sublist ''big.jpg'' ''Could not upload file big.jpg: status=413, body=too large''
   \<and> snd (fst (UploadFile test_world 0 ''big.jpg'')) \<noteq> snd (fst (UploadFile test_world 0 ''bad.jpg''))
   \<and> (\<exists>m. snd (fst (UploadFile test_world 0 ''big.jpg'')) = Some m
          \<and> sublist (itoa 413) m \<and> sublist ''too large'' m)"
proof -
  have f: "failure_of test_world ''big.jpg'' = Some BadStatus"
    by code_simp
  note t = UploadFile_failure_errors [of test_world 0 "''big.jpg''" test_world "''bad.jpg''" 0]
  from t test_big_error f test_bad test_big show ?thesis
    by simp
qed

section \<open>The description and the token of a staged item\<close>

lemma LastIndex_absent: "c \<notin> set xs \<Longrightarrow> LastIndex xs c = None"
  by (induction xs) auto

lemma LastIndex_last: "c \<notin> set ys \<Longrightarrow> LastIndex (xs @ c # ys) c = Some (length xs)"
  by (induction xs) (auto simp: LastIndex_absent)

lemma no_trailing_slash:
  assumes "name \<noteq> []" and "CHR ''/'' \<notin> set name"
  shows "rev (dropWhile (\<lambda>c. c = CHR ''/'') (rev (xs @ name))) = xs @ name"
proof -
  from assms obtain ys y where name: "name = ys @ [y]" and y: "y \<noteq> CHR ''/''"
    by (cases name rule: rev_cases) auto
  then show ?thesis by simp
qed

lemma Base_after_slash:
  assumes "CHR ''/'' \<notin> set name" and "name \<noteq> []"
  shows "Base (dir @ ''/'' @ name) = name"
proof -
  have "rev (dropWhile (\<lambda>c. c = CHR ''/'') (rev ((dir @ ''/'') @ name))) = (dir @ ''/'') @ name"
    by (rule no_trailing_slash [OF assms(2) assms(1)])
  then show ?thesis
    using assms by (simp add: Base_def LastIndex_last)
qed

lemma Base_no_slash:
  assumes "CHR ''/'' \<notin> set name" and "name \<noteq> []"
  shows "Base name = name"
proof -
  have "rev (dropWhile (\<lambda>c. c = CHR ''/'') (rev ([] @ name))) = [] @ name"
    by (rule no_trailing_slash [OF assms(2) assms(1)])
  then show ?thesis
    using assms by (simp add: Base_def LastIndex_absent)
qed

lemma last_element_after_separator:
  "c \<notin> set name \<Longrightarrow> last_element c (dir @ c # name) = name"
proof -
  assume "c \<notin> set name"
  then have "takeWhile (\<lambda>x. x \<noteq> c) (rev name @ c # rev dir) = rev name"
    by (subst takeWhile_append2) auto
  then show ?thesis by (simp add: last_element_def)
qed

text \<open>
  C7. The description of a staged item is to be the base name of its path whatever the
  separator of the platform. \<open>UploadFile\<close> takes the name with \<open>path.Base\<close>, which knows
  the slash only: on the path \<open>dir\photo.jpg\<close> of a platform whose separator is the
  backslash, where the base name is \<open>photo.jpg\<close>, the upload succeeds and the description
  of the item is the whole path. The token is the response body as it came.
\<close>

theorem UploadFile_description_of_backslash_path:
  "fst (UploadFile test_world 0 windows_path)
     = (Ptr 1 \<lparr>Description = windows_path,
                SimpleMediaItem = Ptr 0 \<lparr>SimpleMediaItem.UploadToken = ''t1''\<rparr>\<rparr>, None)
   \<and> last_element (CHR 0x5C) windows_path = ''photo.jpg''
   \<and> map_option fst (staged (fst (fst (UploadFile test_world 0 windows_path))))
       \<noteq> Some (last_element (CHR 0x5C) windows_path)"
  by code_simp

text \<open>
  What \<open>UploadFile\<close> does on every path: an upload succeeds exactly when the status is
  200; its item then has the response body as its token, as it came, and \<open>path.Base\<close> of
  the path as its description. For a name that is not empty and has no slash,
  \<open>path.Base\<close> of \<open>dir/name\<close> is the name for every directory, at any depth, where it is
  what follows the last slash, and \<open>path.Base\<close> of the name alone is the name.
\<close>

theorem UploadFile_description_and_token:
  "(\<forall>body. transfer w filepath = Inr (200, body) \<longrightarrow>
      fst (UploadFile w a filepath) =
        (Ptr (a + 1) \<lparr>Description = Base filepath,
                      SimpleMediaItem = Ptr a \<lparr>SimpleMediaItem.UploadToken = body\<rparr>\<rparr>, None))
   \<and> (snd (fst (UploadFile w a filepath)) = None \<longrightarrow>
        (\<exists>body. transfer w filepath = Inr (200, body)))
   \<and> (CHR ''/'' \<notin> set name \<and> name \<noteq> [] \<longrightarrow>
        Base (dir @ ''/'' @ name) = name \<and> Base name = name
        \<and> Base (dir @ ''/'' @ name) = last_element (CHR ''/'') (dir @ ''/'' @ name))"
proof (intro conjI allI impI)
  show "fst (UploadFile w a filepath) =
        (Ptr (a + 1) \<lparr>Description = Base filepath,
                      SimpleMediaItem = Ptr a \<lparr>SimpleMediaItem.UploadToken = body\<rparr>\<rparr>, None)"
    if "transfer w filepath = Inr (200, body)" for body
    using that by (rule success_item)
  show "\<exists>body. transfer w filepath = Inr (200, body)"
    if "snd (fst (UploadFile w a filepath)) = None"
    using that by (simp add: success_iff_200)
  assume "CHR ''/'' \<notin> set name \<and> name \<noteq> []"
  then have n: "CHR ''/'' \<notin> set name" "name \<noteq> []" by blast+
  from n show b: "Base (dir @ ''/'' @ name) = name" by (rule Base_after_slash)
  from n show "Base name = name" by (rule Base_no_slash)
  from n(1) have "last_element (CHR ''/'') (dir @ ''/'' @ name) = name"
    by (simp add: last_element_after_separator)
  with b show "Base (dir @ ''/'' @ name) = last_element (CHR ''/'') (dir @ ''/'' @ name)"
    by simp
qed

lemma test_ok2: "transfer test_world ''/a/b/ok2.jpg'' = Inr (200, ''t2'')"
  by code_simp

theorem UploadFile_description_and_token_witness:
  "transfer test_world ''/a/b/ok2.jpg'' = Inr (200, ''t2'')
   \<and> CHR ''/'' \<notin> set ''ok2.jpg'' \<and> ''ok2.jpg'' \<noteq> []
   \<and> staged (fst (fst (UploadFile test_world 0 (''/a/b'' @ ''/'' @ ''ok2.jpg''))))
       = Some (''ok2.jpg'', ''t2'')
   \<and> Base windows_path = windows_path"
proof -
  have p: "''/a/b/ok2.jpg'' = ''/a/b'' @ ''/'' @ ''ok2.jpg''" by simp
  have n: "CHR ''/'' \<notin> set ''ok2.jpg'' \<and> ''ok2.jpg'' \<noteq> []" by simp
  have n': "CHR ''/'' \<notin> set windows_path \<and> windows_path \<noteq> []"
    by (simp add: windows_path_def)
  note t = UploadFile_description_and_token [of test_world "''/a/b/ok2.jpg''" 0 "''ok2.jpg''" "''/a/b''"]
  note t' = UploadFile_description_and_token [of test_world "''/a/b/ok2.jpg''" 0 windows_path "''/a/b''"]
  from t test_ok2 n have "staged (fst (fst (UploadFile test_world 0 ''/a/b/ok2.jpg''))) = Some (''ok2.jpg'', ''t2'')"
    by (simp del: set_simps)
  moreover from t' n' have "Base windows_path = windows_path" by blast
  ultimately show ?thesis using test_ok2 n by (simp del: set_simps)
qed

section \<open>The handles of \<open>UploadFile\<close>\<close>

lemma UploadFile_effects:
  "snd (UploadFile w a filepath) =
     (case os_Open w filepath of
        Inl e \<Rightarrow> []
      | Inr r \<Rightarrow>
          (case http_NewRequest w ''POST'' ''https://photoslibrary.googleapis.com/v1/uploads'' r of
             Inl e \<Rightarrow> [Open r, Close r]
           | Inr req0 \<Rightarrow>
               (let req = req0\<lparr>Header := Header req0 @ [(''X-Goog-Upload-File-Name'', Base filepath)]\<rparr>
                in case client_Do w req of
                     Inl e \<Rightarrow> [Open r, Printf (''Uploading '' @ filepath), Do req, Close r]
                   | Inr res \<Rightarrow>
                       [Open r, Printf (''Uploading '' @ filepath), Do req, ReadAll (Body res),
                        CloseBody (Body res), Close r])))"
  by (simp add: UploadFile_def return_with_def Let_def basePath_def apiVersion_def
           split: sum.splits)

lemma no_handle_without_open:
  "os_Open w filepath = Inl e \<Longrightarrow> snd (UploadFile w a filepath) = []"
  by (simp add: UploadFile_effects)

lemma file_closed_last:
  assumes "os_Open w filepath = Inr r"
  shows "\<exists>mid. snd (UploadFile w a filepath) = Open r # mid @ [Close r]
           \<and> (\<forall>x\<in>set mid. \<forall>h. x \<noteq> Open h \<and> x \<noteq> Close h)"
proof (cases "http_NewRequest w ''POST'' ''https://photoslibrary.googleapis.com/v1/uploads'' r")
  case (Inl e)
  with assms have "snd (UploadFile w a filepath) = Open r # [] @ [Close r]"
    by (simp add: UploadFile_effects)
  then show ?thesis by fastforce
next
  case (Inr req0)
  let ?req = "req0\<lparr>Header := Header req0 @ [(''X-Goog-Upload-File-Name'', Base filepath)]\<rparr>"
  show ?thesis
  proof (cases "client_Do w ?req")
    case (Inl e)
    with assms Inr have "snd (UploadFile w a filepath)
        = Open r # [Printf (''Uploading '' @ filepath), Do ?req] @ [Close r]"
      by (simp add: UploadFile_effects)
    then show ?thesis by fastforce
  next
    case (Inr res)
    with assms \<open>http_NewRequest w _ _ r = Inr req0\<close> have "snd (UploadFile w a filepath)
        = Open r # [Printf (''Uploading '' @ filepath), Do ?req, ReadAll (Body res),
                    CloseBody (Body res)] @ [Close r]"
      by (simp add: UploadFile_effects)
    then show ?thesis by fastforce
  qed
qed

lemma body_closed_before_file:
  assumes "Do req \<in> set (snd (UploadFile w a filepath))" and "client_Do w req = Inr res"
  shows "\<exists>before r. os_Open w filepath = Inr r
           \<and> snd (UploadFile w a filepath) = before @ [CloseBody (Body res), Close r]
           \<and> (\<forall>x\<in>set before. \<forall>b. x \<noteq> CloseBody b)"
proof -
  from assms(1) obtain r where r: "os_Open w filepath = Inr r"
    by (cases "os_Open w filepath") (simp_all add: UploadFile_effects)
  from assms(1) r obtain req0 where
    req0: "http_NewRequest w ''POST'' ''https://photoslibrary.googleapis.com/v1/uploads'' r = Inr req0"
    by (cases "http_NewRequest w ''POST'' ''https://photoslibrary.googleapis.com/v1/uploads'' r")
       (simp_all add: UploadFile_effects)
  let ?req = "req0\<lparr>Header := Header req0 @ [(''X-Goog-Upload-File-Name'', Base filepath)]\<rparr>"
  have "req = ?req"
    using assms(1) r req0 by (simp add: UploadFile_effects Let_def split: sum.splits)
  with assms(2) r req0 have "snd (UploadFile w a filepath)
      = [Open r, Printf (''Uploading '' @ filepath), Do ?req, ReadAll (Body res)]
        @ [CloseBody (Body res), Close r]"
    by (simp add: UploadFile_effects)
  with r show ?thesis by fastforce
qed

text \<open>
  C8. When the file cannot be opened there is no handle and \<open>UploadFile\<close> has no effect.
  Otherwise the effects of the call start with the opening of the file and end with its
  closing, with no other opening or closing of a file between; and when the transfer
  returned a response, the effects end with the closing of its body followed by the
  closing of the file, the body not being closed before.
\<close>

theorem UploadFile_closes_handles:
  "(\<forall>e. os_Open w filepath = Inl e \<longrightarrow> snd (UploadFile w a filepath) = [])
   \<and> (\<forall>r. os_Open w filepath = Inr r \<longrightarrow>
        (\<exists>mid. snd (UploadFile w a filepath) = Open r # mid @ [Close r]
               \<and> (\<forall>x\<in>set mid. \<forall>h. x \<noteq> Open h \<and> x \<noteq> Close h)))
   \<and> (\<forall>req res. Do req \<in> set (snd (UploadFile w a filepath)) \<and> client_Do w req = Inr res \<longrightarrow>
        (\<exists>before r. os_Open w filepath = Inr r
               \<and> snd (UploadFile w a filepath) = before @ [CloseBody (Body res), Close r]
               \<and> (\<forall>x\<in>set before. \<forall>b. x \<noteq> CloseBody b)))"
  using no_handle_without_open file_closed_last body_closed_before_file
  by (intro conjI allI impI) blast+

lemma test_big_effects:
  "snd (UploadFile test_world 0 ''big.jpg'') =
     [Open 3, Printf ''Uploading big.jpg'',
      Do \<lparr>Method = ''POST'', URL = ''https://photoslibrary.googleapis.com/v1/uploads'',
          RequestBody = 3, Header = [(''X-Goog-Upload-File-Name'', ''big.jpg'')]\<rparr>,
      ReadAll 3, CloseBody 3, Close 3]"
  by code_simp

lemma test_big_open: "os_Open test_world ''big.jpg'' = Inr 3"
  by code_simp

lemma test_big_do:
  "client_Do test_world
     \<lparr>Method = ''POST'', URL = ''https://photoslibrary.googleapis.com/v1/uploads'',
      RequestBody = 3, Header = [(''X-Goog-Upload-File-Name'', ''big.jpg'')]\<rparr>
   = Inr \<lparr>StatusCode = 413, Body = 3\<rparr>"
  by code_simp

theorem UploadFile_closes_handles_witness:
  "os_Open test_world ''big.jpg'' = Inr 3
   \<and> Do \<lparr>Method = ''POST'', URL = ''https://photoslibrary.googleapis.com/v1/uploads'',
          RequestBody = 3, Header = [(''X-Goog-Upload-File-Name'', ''big.jpg'')]\<rparr>
       \<in> set (snd (UploadFile test_world 0 ''big.jpg''))
   \<and> (\<exists>before. snd (UploadFile test_world 0 ''big.jpg'') = before @ [CloseBody 3, Close 3])
   \<and> (\<exists>mid. snd (UploadFile test_world 0 ''big.jpg'') = Open 3 # mid @ [Close 3])"
proof -
  let ?req = "\<lparr>Method = ''POST'', URL = ''https://photoslibrary.googleapis.com/v1/uploads'',
               RequestBody = 3, Header = [(''X-Goog-Upload-File-Name'', ''big.jpg'')]\<rparr>"
  have d: "Do ?req \<in> set (snd (UploadFile test_world 0 ''big.jpg''))"
    by (simp add: test_big_effects)
  note t = UploadFile_closes_handles [of test_world "''big.jpg''" 0]
  from t test_big_open have "\<exists>mid. snd (UploadFile test_world 0 ''big.jpg'') = Open 3 # mid @ [Close 3]"
    by blast
  moreover from t d test_big_do test_big_open
  have "\<exists>before. snd (UploadFile test_world 0 ''big.jpg'') = before @ [CloseBody 3, Close 3]"
    by fastforce
  ultimately show ?thesis
    using d test_big_open by blast
qed

section \<open>The commit\<close>

lemma staged_SomeE:
  assumes "staged x = Some (d, t)"
  obtains a m b simple where "x = Ptr a m" "SimpleMediaItem m = Ptr b simple"
    "Description m = d" "SimpleMediaItem.UploadToken simple = t"
  using assms by (cases x) (auto split: ptr.splits)

lemma find_Cons_staged:
  assumes "staged x = Some (d, t)"
  shows "findMediaItemByUploadToken (x # rest) uploadToken
           = (if t = uploadToken then Inr x else findMediaItemByUploadToken rest uploadToken)"
  using assms by (auto elim!: staged_SomeE)

lemma find_skips_other_tokens:
  assumes "\<forall>x\<in>set before. \<exists>d t. staged x = Some (d, t) \<and> t \<noteq> uploadToken"
  shows "findMediaItemByUploadToken (before @ rest) uploadToken
           = findMediaItemByUploadToken rest uploadToken"
  using assms
proof (induction before)
  case Nil
  then show ?case by simp
next
  case (Cons x before)
  then obtain d t where "staged x = Some (d, t)" "t \<noteq> uploadToken" by auto
  with Cons show ?case by (simp add: find_Cons_staged del: findMediaItemByUploadToken.simps)
qed

lemma find_first_match:
  assumes "\<forall>x\<in>set before. \<exists>d t. staged x = Some (d, t) \<and> t \<noteq> uploadToken"
    and "staged x = Some (d, uploadToken)"
  shows "findMediaItemByUploadToken (before @ x # rest) uploadToken = Inr x"
  using assms
  by (simp add: find_skips_other_tokens find_Cons_staged del: findMediaItemByUploadToken.simps)

lemma find_not_nil:
  assumes "x \<in> set items" and "staged x = Some (d, uploadToken)"
  shows "findMediaItemByUploadToken items uploadToken \<noteq> Inr NilPtr"
  using assms
proof (induction items)
  case Nil
  then show ?case by simp
next
  case (Cons y ys)
  show ?case
  proof (cases "staged y")
    case None
    then show ?thesis by (cases y) (auto split: ptr.splits)
  next
    case (Some dt)
    then obtain d' t' where y: "staged y = Some (d', t')" by (cases dt) auto
    then have "y \<noteq> NilPtr" by auto
    with y Cons show ?thesis
      by (auto simp: find_Cons_staged simp del: findMediaItemByUploadToken.simps)
  qed
qed

lemma find_is_first_with_token:
  assumes "\<forall>x\<in>set items. well_formed x"
  shows "findMediaItemByUploadToken items uploadToken =
           Inr (case filter (\<lambda>x. token_of x = Some uploadToken) items of
                  [] \<Rightarrow> NilPtr | x # _ \<Rightarrow> x)"
  using assms
proof (induction items)
  case Nil
  then show ?case by simp
next
  case (Cons y ys)
  then obtain d t where y: "staged y = Some (d, t)"
    by (auto simp: well_formed_def)
  with Cons show ?case
    by (simp add: find_Cons_staged token_of_def del: findMediaItemByUploadToken.simps)
qed

lemma reconcile_is_commit_log_line:
  assumes "\<forall>x\<in>set items. well_formed x"
  shows "reconcile items result = Inr (commit_log_line items result)"
proof (cases "filter (\<lambda>x. token_of x = Some (NewMediaItemResult.UploadToken result)) items")
  case Nil
  with assms show ?thesis
    by (simp add: reconcile_def commit_log_line_def find_is_first_with_token)
next
  case (Cons x xs)
  then have "x \<in> set items"
    by (metis filter_is_subset list.set_intros(1) subsetD)
  with assms obtain a m where "x = Ptr a m"
    by (cases x) (auto simp: well_formed_def)
  with Cons assms show ?thesis
    by (simp add: reconcile_def commit_log_line_def find_is_first_with_token)
qed

lemma reconcile_all_is_commit_log:
  assumes "\<forall>x\<in>set items. well_formed x"
  shows "reconcile_all items results
           = (None, concat (map (commit_log_line items) results))"
  by (induction results) (simp_all add: reconcile_is_commit_log_line [OF assms])

lemma Append_call_failed:
  "BatchCreate_Do w (batch_request album items) = Inl e \<Longrightarrow>
   Append w album items = (Inr (Some e), [])"
  by (simp add: Append_def)

lemma Append_call_done:
  "BatchCreate_Do w (batch_request album items) = Inr batch \<Longrightarrow>
   fst (Append w album items) \<noteq> Inr (Some e)"
  by (simp add: Append_def split: prod.splits option.splits)

lemma Append_reconciles:
  assumes "BatchCreate_Do w (batch_request album items) = Inr batch"
    and "\<forall>x\<in>set (elems items). well_formed x"
  shows "Append w album items
           = (Inr None, concat (map (commit_log_line (elems items)) (NewMediaItemResults batch)))"
  using assms by (simp add: Append_def reconcile_all_is_commit_log)

text \<open>
  C10. The lookup returns the first item, in the order of submission, whose token is the
  one looked for, where the items before it have other tokens; and when some submitted
  item has the token, the lookup does not return \<open>nil\<close>.
\<close>

theorem find_attributes_to_first_match:
  "(\<forall>before x rest d.
       items = before @ x # rest
       \<and> (\<forall>y\<in>set before. \<exists>d' t. staged y = Some (d', t) \<and> t \<noteq> uploadToken)
       \<and> staged x = Some (d, uploadToken)
       \<longrightarrow> findMediaItemByUploadToken items uploadToken = Inr x)
   \<and> (\<forall>x d. x \<in> set items \<and> staged x = Some (d, uploadToken)
       \<longrightarrow> findMediaItemByUploadToken items uploadToken \<noteq> Inr NilPtr)"
  using find_first_match find_not_nil by blast

lemma test_items_split:
  "test_items =
     [Ptr 1 \<lparr>Description = ''ok1.jpg'', SimpleMediaItem = Ptr 0 \<lparr>SimpleMediaItem.UploadToken = ''t1''\<rparr>\<rparr>]
     @ Ptr 3 \<lparr>Description = ''ok2.jpg'', SimpleMediaItem = Ptr 2 \<lparr>SimpleMediaItem.UploadToken = ''t2''\<rparr>\<rparr>
     # [Ptr 5 \<lparr>Description = ''copy.jpg'', SimpleMediaItem = Ptr 4 \<lparr>SimpleMediaItem.UploadToken = ''t2''\<rparr>\<rparr>]"
  by (simp add: test_items_def)

theorem find_attributes_to_first_match_witness:
  "staged (Ptr 5 \<lparr>Description = ''copy.jpg'', SimpleMediaItem = Ptr 4 \<lparr>SimpleMediaItem.UploadToken = ''t2''\<rparr>\<rparr>)
     = Some (''copy.jpg'', ''t2'')
   \<and> Ptr 5 \<lparr>Description = ''copy.jpg'', SimpleMediaItem = Ptr 4 \<lparr>SimpleMediaItem.UploadToken = ''t2''\<rparr>\<rparr>
       \<in> set test_items
   \<and> findMediaItemByUploadToken test_items ''t2''
       = Inr (Ptr 3 \<lparr>Description = ''ok2.jpg'', SimpleMediaItem = Ptr 2 \<lparr>SimpleMediaItem.UploadToken = ''t2''\<rparr>\<rparr>)
   \<and> findMediaItemByUploadToken test_items ''t2'' \<noteq> Inr NilPtr"
proof -
  let ?first = "Ptr 3 \<lparr>Description = ''ok2.jpg'', SimpleMediaItem = Ptr 2 \<lparr>SimpleMediaItem.UploadToken = ''t2''\<rparr>\<rparr>"
  let ?second = "Ptr 5 \<lparr>Description = ''copy.jpg'', SimpleMediaItem = Ptr 4 \<lparr>SimpleMediaItem.UploadToken = ''t2''\<rparr>\<rparr>"
  let ?other = "Ptr 1 \<lparr>Description = ''ok1.jpg'', SimpleMediaItem = Ptr 0 \<lparr>SimpleMediaItem.UploadToken = ''t1''\<rparr>\<rparr>"
  note t = find_attributes_to_first_match [of test_items "''t2''"]
  have before: "\<forall>y\<in>set [?other]. \<exists>d' t. staged y = Some (d', t) \<and> t \<noteq> ''t2''"
    by simp
  have first: "staged ?first = Some (''ok2.jpg'', ''t2'')" by simp
  have second: "staged ?second = Some (''copy.jpg'', ''t2'')" by simp
  have mem: "?second \<in> set test_items" by (simp add: test_items_def)
  from t test_items_split before first
  have "findMediaItemByUploadToken test_items ''t2'' = Inr ?first"
    by blast
  moreover from t mem second have "findMediaItemByUploadToken test_items ''t2'' \<noteq> Inr NilPtr"
    by blast
  ultimately show ?thesis using second mem by blast
qed

text \<open>
  C3. \<open>Append\<close> returns an error exactly when the batch create call fails, and the error
  is the one of the call. When the call succeeds on submitted staged items, \<open>Append\<close>
  returns \<open>nil\<close>, whatever the status codes of the results.
\<close>

theorem Append_error_iff_call_fails:
  "(fst (Append w album items) = Inr (Some e))
     = (BatchCreate_Do w (batch_request album items) = Inl e)
   \<and> (\<forall>batch. BatchCreate_Do w (batch_request album items) = Inr batch
         \<and> (\<forall>x\<in>set (elems items). well_formed x)
       \<longrightarrow> fst (Append w album items) = Inr None)"
proof (intro conjI allI impI)
  show "(fst (Append w album items) = Inr (Some e))
          = (BatchCreate_Do w (batch_request album items) = Inl e)"
    by (cases "BatchCreate_Do w (batch_request album items)")
       (simp_all add: Append_call_failed Append_call_done)
  show "fst (Append w album items) = Inr None"
    if "BatchCreate_Do w (batch_request album items) = Inr batch
        \<and> (\<forall>x\<in>set (elems items). well_formed x)" for batch
    using that by (simp add: Append_reconciles)
qed

lemma test_items_well_formed: "\<forall>x\<in>set (elems (Slice test_items)). well_formed x"
  by (simp add: test_items_def well_formed_def)

lemma test_batch:
  "BatchCreate_Do test_world (batch_request NilPtr (Slice test_items)) =
     Inr \<lparr>NewMediaItemResults =
            [\<lparr>Status = \<lparr>Code = 0, Message = ''OK''\<rparr>, UploadToken = ''t1''\<rparr>,
             \<lparr>Status = \<lparr>Code = 5, Message = ''NOT_FOUND''\<rparr>, UploadToken = ''t2''\<rparr>,
             \<lparr>Status = \<lparr>Code = 3, Message = ''INVALID''\<rparr>, UploadToken = ''t9''\<rparr>]\<rparr>"
  by (simp add: test_world_def batch_request_def)

lemma test_batch_gone:
  "BatchCreate_Do test_world (batch_request (Ptr 9 \<lparr>Id = ''gone''\<rparr>) (Slice test_items))
     = Inl ''network error''"
  by (simp add: test_world_def batch_request_def)

theorem Append_error_iff_call_fails_witness:
  "fst (Append test_world (Ptr 9 \<lparr>Id = ''gone''\<rparr>) (Slice test_items)) = Inr (Some ''network error'')
   \<and> fst (Append test_world NilPtr (Slice test_items)) = Inr None"
proof -
  from Append_error_iff_call_fails [of test_world "Ptr 9 \<lparr>Id = ''gone''\<rparr>" "Slice test_items" "''network error''"]
    test_batch_gone
  have "fst (Append test_world (Ptr 9 \<lparr>Id = ''gone''\<rparr>) (Slice test_items)) = Inr (Some ''network error'')"
    by blast
  moreover from Append_error_iff_call_fails [of test_world NilPtr "Slice test_items"]
    test_batch test_items_well_formed
  have "fst (Append test_world NilPtr (Slice test_items)) = Inr None"
    by blast
  ultimately show ?thesis by simp
qed

text \<open>
  C4. When the batch create call succeeds on submitted staged items, \<open>Append\<close> prints
  for each result, in order, the lines of \<open>commit_log_line\<close>: nothing for a status code 0,
  a skip line with the description of the item that has the result's token, the message
  and the code, or a line with the message and the code alone when no item has the token.
\<close>

theorem Append_log:
  assumes "BatchCreate_Do w (batch_request album items) = Inr batch"
    and "\<forall>x\<in>set (elems items). well_formed x"
  shows "Append w album items
           = (Inr None,
              concat (map (commit_log_line (elems items)) (NewMediaItemResults batch)))"
  using assms by (rule Append_reconciles)

lemma test_commit_log:
  "concat (map (commit_log_line test_items)
     [\<lparr>Status = \<lparr>Code = 0, Message = ''OK''\<rparr>, UploadToken = ''t1''\<rparr>,
      \<lparr>Status = \<lparr>Code = 5, Message = ''NOT_FOUND''\<rparr>, UploadToken = ''t2''\<rparr>,
      \<lparr>Status = \<lparr>Code = 3, Message = ''INVALID''\<rparr>, UploadToken = ''t9''\<rparr>])
   = [''Skipped ok2.jpg: NOT_FOUND (5)'', ''Error while adding files: INVALID (3)'']"
  by code_simp

theorem Append_log_witness:
  "Append test_world NilPtr (Slice test_items)
     = (Inr None, [''Skipped ok2.jpg: NOT_FOUND (5)'', ''Error while adding files: INVALID (3)''])"
  using Append_log [OF test_batch test_items_well_formed] test_commit_log
  by simp

section \<open>The runs of \<open>UploadFiles\<close>\<close>

lemma mset_concat_map_update:
  "i < length ws \<Longrightarrow>
   mset (concat (map f (ws[i := v]))) + mset (f (ws ! i)) = mset (concat (map f ws)) + mset (f v)"
proof (induction ws arbitrary: i)
  case Nil
  then show ?case by simp
next
  case (Cons x ws)
  show ?case
  proof (cases i)
    case 0
    then show ?thesis by simp
  next
    case (Suc j)
    with Cons.prems have "j < length ws" by simp
    from Cons.IH [OF this] Suc show ?thesis by (simp add: ac_simps)
  qed
qed

lemma concat_map_update_same:
  "i < length ws \<Longrightarrow> f (ws ! i) = f v \<Longrightarrow> concat (map f (ws[i := v])) = concat (map f ws)"
proof -
  assume "i < length ws" and "f (ws ! i) = f v"
  then have "(map f ws)[i := f v] = map f ws"
    by (metis list_update_id nth_map)
  then show ?thesis by (simp add: map_update)
qed

lemma sum_list_map_update:
  fixes f :: "'a \<Rightarrow> nat"
  shows "i < length ws \<Longrightarrow>
   sum_list (map f (ws[i := v])) + f (ws ! i) = sum_list (map f ws) + f v"
proof (induction ws arbitrary: i)
  case Nil
  then show ?case by simp
next
  case (Cons x ws)
  show ?case
  proof (cases i)
    case 0
    then show ?thesis by simp
  next
    case (Suc j)
    with Cons.prems have "j < length ws" by simp
    from Cons.IH [OF this] Suc show ?thesis by simp
  qed
qed

lemma length_filter_update:
  "i < length ws \<Longrightarrow>
   length (filter P (ws[i := v])) + (if P (ws ! i) then 1 else 0)
     = length (filter P ws) + (if P v then 1 else 0)"
proof (induction ws arbitrary: i)
  case Nil
  then show ?case by simp
next
  case (Cons x ws)
  show ?case
  proof (cases i)
    case 0
    then show ?thesis by simp
  next
    case (Suc j)
    with Cons.prems have "j < length ws" by simp
    from Cons.IH [OF this] Suc show ?thesis by simp
  qed
qed

lemma worker_stepE [consumes 1, case_names recv exit exit_panic failed success send_panic send]:
  assumes "worker_step w i s = Some s'"
  obtains
    (recv) filepath rest where
      "i < length (workers s)" "workers s ! i = Receiving" "uploadQueue s = filepath # rest"
      "s' = s\<lparr>uploadQueue := rest, workers := (workers s)[i := Uploading filepath]\<rparr>"
  | (exit)
      "i < length (workers s)" "workers s ! i = Receiving" "uploadQueue s = []"
      "workerGroup s \<noteq> 0"
      "s' = s\<lparr>workers := (workers s)[i := Exited], workerGroup := workerGroup s - 1\<rparr>"
  | (exit_panic)
      "i < length (workers s)" "workers s ! i = Receiving" "workerGroup s = 0"
      "s' = s\<lparr>panicked := Some NegativeWaitGroupCounter\<rparr>"
  | (failed) filepath item err evs where
      "i < length (workers s)" "workers s ! i = Uploading filepath"
      "UploadFile w (heapNext s) filepath = ((item, Some err), evs)"
      "s' = s\<lparr>effects := effects s @ evs
                    @ [Printf (''Error while uploading file '' @ filepath @ '': '' @ err)],
               workers := (workers s)[i := Receiving]\<rparr>"
  | (success) filepath item evs where
      "i < length (workers s)" "workers s ! i = Uploading filepath"
      "UploadFile w (heapNext s) filepath = ((item, None), evs)"
      "s' = s\<lparr>effects := effects s @ evs, heapNext := heapNext s + 2,
               workers := (workers s)[i := Sending item]\<rparr>"
  | (send_panic) item where
      "i < length (workers s)" "workers s ! i = Sending item" "aggregateClosed s"
      "s' = s\<lparr>panicked := Some SendOnClosedChannel\<rparr>"
  | (send) item where
      "i < length (workers s)" "workers s ! i = Sending item" "\<not> aggregateClosed s"
      "length (aggregateQueue s) < aggregateCap s"
      "s' = s\<lparr>aggregateQueue := aggregateQueue s @ [item],
               workers := (workers s)[i := Receiving]\<rparr>"
proof (cases "length (workers s) \<le> i")
  case True
  with assms show ?thesis by (simp add: worker_step_def)
next
  case False
  then have i: "i < length (workers s)" by simp
  show ?thesis
  proof (cases "workers s ! i")
    case Receiving
    with assms i recv exit exit_panic show ?thesis
      by (auto simp: worker_step_def split: list.splits if_splits)
  next
    case (Uploading filepath)
    obtain item err evs where u: "UploadFile w (heapNext s) filepath = ((item, err), evs)"
      by (metis surj_pair)
    with assms i Uploading failed success show ?thesis
      by (cases err) (auto simp: worker_step_def)
  next
    case (Sending item)
    with assms i send_panic send show ?thesis
      by (auto simp: worker_step_def split: if_splits)
  next
    case Exited
    with assms i show ?thesis by (simp add: worker_step_def)
  qed
qed

lemma supervisor_stepE [consumes 1, case_names close]:
  assumes "supervisor_step s = Some s'"
  obtains "workerGroup s = 0" "\<not> aggregateClosed s" "s' = s\<lparr>aggregateClosed := True\<rparr>"
  using assms by (auto simp: supervisor_step_def split: if_splits)

lemma collector_stepE [consumes 1, case_names collect return]:
  assumes "collector_step s = Some s'"
  obtains
    (collect) item rest where
      "returned s = None" "aggregateQueue s = item # rest"
      "s' = s\<lparr>aggregateQueue := rest, mediaItems := append_slice (mediaItems s) item\<rparr>"
  | (return)
      "returned s = None" "aggregateQueue s = []" "aggregateClosed s"
      "s' = s\<lparr>returned := Some (mediaItems s)\<rparr>"
  using assms by (auto simp: collector_step_def split: option.splits list.splits if_splits)

lemma working_not_closed:
  assumes "control_ok s" and "i < length (workers s)" and "workers s ! i \<noteq> Exited"
  shows "workerGroup s \<noteq> 0 \<and> \<not> aggregateClosed s \<and> returned s = None"
proof -
  from assms(2,3) have "workers s ! i \<in> set (filter (\<lambda>x. x \<noteq> Exited) (workers s))"
    by simp
  then have "filter (\<lambda>x. x \<noteq> Exited) (workers s) \<noteq> []"
    by (metis empty_iff empty_set)
  with assms(1) have "workerGroup s \<noteq> 0" by (simp add: control_ok_def)
  with assms(1) show ?thesis by (cases "returned s") (auto simp: control_ok_def)
qed

lemma Exited_after_update:
  "Exited \<in> set (ws[i := v]) \<Longrightarrow> v \<noteq> Exited \<Longrightarrow> Exited \<in> set ws"
  by (metis insertE set_update_subset_insert subsetD)

lemma control_ok_worker_step:
  assumes ok: "control_ok s" and st: "worker_step w i s = Some s'"
  shows "control_ok s'"
  using st
proof (cases rule: worker_stepE)
  case (recv filepath rest)
  from working_not_closed [OF ok recv(1)] recv(2)
  have nc: "\<not> aggregateClosed s" "returned s = None" by simp_all
  from length_filter_update [OF recv(1), of "\<lambda>x. x \<noteq> Exited" "Uploading filepath"] recv(2)
  have "length (filter (\<lambda>x. x \<noteq> Exited) ((workers s)[i := Uploading filepath]))
          = length (filter (\<lambda>x. x \<noteq> Exited) (workers s))" by simp
  moreover from ok recv have "Exited \<notin> set ((workers s)[i := Uploading filepath])"
    by (auto simp: control_ok_def dest!: Exited_after_update)
  ultimately show ?thesis using ok recv nc by (simp add: control_ok_def)
next
  case exit
  from working_not_closed [OF ok exit(1)] exit(2)
  have nc: "\<not> aggregateClosed s" "returned s = None" by simp_all
  from length_filter_update [OF exit(1), of "\<lambda>x. x \<noteq> Exited" Exited] exit(2)
  have "length (filter (\<lambda>x. x \<noteq> Exited) ((workers s)[i := Exited])) + 1
          = length (filter (\<lambda>x. x \<noteq> Exited) (workers s))" by simp
  then have "length (filter (\<lambda>x. x \<noteq> Exited) (workers s)) - 1
          = length (filter (\<lambda>x. x \<noteq> Exited) ((workers s)[i := Exited]))" by arith
  then show ?thesis using ok exit nc by (simp add: control_ok_def)
next
  case exit_panic
  with working_not_closed [OF ok exit_panic(1)] show ?thesis by simp
next
  case (failed filepath item err evs)
  from working_not_closed [OF ok failed(1)] failed(2)
  have nc: "\<not> aggregateClosed s" "returned s = None" by simp_all
  from length_filter_update [OF failed(1), of "\<lambda>x. x \<noteq> Exited" Receiving] failed(2)
  have "length (filter (\<lambda>x. x \<noteq> Exited) ((workers s)[i := Receiving]))
          = length (filter (\<lambda>x. x \<noteq> Exited) (workers s))" by simp
  moreover have "Exited \<in> set ((workers s)[i := Receiving]) \<Longrightarrow> Exited \<in> set (workers s)"
    by (erule Exited_after_update) simp
  ultimately show ?thesis using ok failed nc by (auto simp: control_ok_def)
next
  case (success filepath item evs)
  from working_not_closed [OF ok success(1)] success(2)
  have nc: "\<not> aggregateClosed s" "returned s = None" by simp_all
  from length_filter_update [OF success(1), of "\<lambda>x. x \<noteq> Exited" "Sending item"] success(2)
  have "length (filter (\<lambda>x. x \<noteq> Exited) ((workers s)[i := Sending item]))
          = length (filter (\<lambda>x. x \<noteq> Exited) (workers s))" by simp
  moreover have "Exited \<in> set ((workers s)[i := Sending item]) \<Longrightarrow> Exited \<in> set (workers s)"
    by (erule Exited_after_update) simp
  ultimately show ?thesis using ok success nc by (auto simp: control_ok_def)
next
  case (send_panic item)
  with working_not_closed [OF ok send_panic(1)] show ?thesis by simp
next
  case (send item)
  from working_not_closed [OF ok send(1)] send(2)
  have nc: "\<not> aggregateClosed s" "returned s = None" by simp_all
  from length_filter_update [OF send(1), of "\<lambda>x. x \<noteq> Exited" Receiving] send(2)
  have "length (filter (\<lambda>x. x \<noteq> Exited) ((workers s)[i := Receiving]))
          = length (filter (\<lambda>x. x \<noteq> Exited) (workers s))" by simp
  moreover have "Exited \<in> set ((workers s)[i := Receiving]) \<Longrightarrow> Exited \<in> set (workers s)"
    by (erule Exited_after_update) simp
  ultimately show ?thesis using ok send nc by (auto simp: control_ok_def)
qed

lemma control_ok_supervisor_step:
  assumes "control_ok s" and "supervisor_step s = Some s'"
  shows "control_ok s'"
  using assms(2,1) by (cases rule: supervisor_stepE) (auto simp: control_ok_def)

lemma control_ok_collector_step:
  assumes "control_ok s" and "collector_step s = Some s'"
  shows "control_ok s'"
  using assms(2,1)
proof (cases rule: collector_stepE)
  case (collect item rest)
  then show ?thesis using assms(1)
    by (cases "mediaItems s") (auto simp: control_ok_def)
next
  case return
  then show ?thesis using assms(1) by (auto simp: control_ok_def)
qed

lemma UploadFile_success:
  assumes "UploadFile w a filepath = ((item, None), evs)"
  shows "succeeds w filepath \<and> staged item = uploaded w filepath \<and> addr item = a + 1
         \<and> well_formed item"
proof -
  from assms have e: "snd (fst (UploadFile w a filepath)) = None" by simp
  then obtain body where t: "transfer w filepath = Inr (200, body)"
    by (auto simp: success_iff_200)
  from success_item [OF t, of a] assms
  have "item = Ptr (a + 1) \<lparr>Description = Base filepath,
                   SimpleMediaItem = Ptr a \<lparr>SimpleMediaItem.UploadToken = body\<rparr>\<rparr>"
    by simp
  moreover from success_item [OF t, of 0]
  have "uploaded w filepath = Some (Base filepath, body)"
    by (simp add: uploaded_def)
  moreover from t have "succeeds w filepath"
    unfolding succeeds_def success_iff_200 by blast
  ultimately show ?thesis by (simp add: well_formed_def)
qed

lemma UploadFile_failure:
  assumes "UploadFile w a filepath = ((item, Some err), evs)"
  shows "\<not> succeeds w filepath"
proof -
  from assms have "snd (fst (UploadFile w a filepath)) \<noteq> None" by simp
  then show ?thesis
    unfolding succeeds_def success_iff_200 .
qed

lemma held_ok_mset:
  assumes "mset xs = mset ys"
  shows "held_ok n xs = held_ok n ys"
proof -
  from assms have "set xs = set ys" by (rule mset_eq_setD)
  moreover from assms have "mset (map addr xs) = mset (map addr ys)" by simp
  then have "distinct (map addr xs) = distinct (map addr ys)"
    by (rule mset_eq_imp_distinct_iff)
  ultimately show ?thesis by (simp add: held_ok_def)
qed

lemma items_ok_same:
  assumes "items_ok w filepaths s"
    and "aggregateCap s' = aggregateCap s"
    and "heapNext s' = heapNext s"
    and "mset (pending s') = mset (pending s)"
    and "mset (held s') = mset (held s)"
  shows "items_ok w filepaths s'"
proof -
  from assms(4) have "length (pending s') = length (pending s)" by (rule mset_eq_length)
  moreover from assms(5) have "length (held s') = length (held s)" by (rule mset_eq_length)
  moreover have "mset (map staged (held s')) = mset (map staged (held s))"
    using assms(5) by simp
  moreover have "mset (map (uploaded w) (filter (succeeds w) (pending s')))
                   = mset (map (uploaded w) (filter (succeeds w) (pending s)))"
    using assms(4) by simp
  moreover have "held_ok (heapNext s') (held s') = held_ok (heapNext s) (held s)"
    using assms(3) held_ok_mset [OF assms(5)] by simp
  ultimately show ?thesis using assms(1,2) by (simp add: items_ok_def)
qed

lemma items_ok_failed:
  assumes "items_ok w filepaths s"
    and "aggregateCap s' = aggregateCap s"
    and "heapNext s' = heapNext s"
    and "mset (pending s') + {#filepath#} = mset (pending s)"
    and "\<not> succeeds w filepath"
    and "mset (held s') = mset (held s)"
  shows "items_ok w filepaths s'"
proof -
  from assms(4) have "size (mset (pending s') + {#filepath#}) = size (mset (pending s))" by simp
  then have "length (pending s') \<le> length (pending s)" by simp
  moreover from assms(6) have "length (held s') = length (held s)" by (rule mset_eq_length)
  moreover have "mset (map staged (held s')) = mset (map staged (held s))"
    using assms(6) by simp
  moreover have "mset (map (uploaded w) (filter (succeeds w) (pending s')))
                   = mset (map (uploaded w) (filter (succeeds w) (pending s)))"
    using assms(5) by (simp flip: assms(4))
  moreover have "held_ok (heapNext s') (held s') = held_ok (heapNext s) (held s)"
    using assms(3) held_ok_mset [OF assms(6)] by simp
  ultimately show ?thesis using assms(1,2) by (simp add: items_ok_def)
qed

lemma items_ok_success:
  assumes "items_ok w filepaths s"
    and "aggregateCap s' = aggregateCap s"
    and "heapNext s' = heapNext s + 2"
    and "mset (pending s') + {#filepath#} = mset (pending s)"
    and "mset (held s') = mset (held s) + {#item#}"
    and "succeeds w filepath" and "staged item = uploaded w filepath"
    and "addr item = heapNext s + 1" and "well_formed item"
  shows "items_ok w filepaths s'"
proof -
  from assms(4) have "size (mset (pending s') + {#filepath#}) = size (mset (pending s))" by simp
  then have "length (pending s') + 1 = length (pending s)" by simp
  moreover from assms(5) have "size (mset (held s')) = size (mset (held s) + {#item#})" by simp
  then have "length (held s') = length (held s) + 1" by simp
  ultimately have count: "length (pending s') + length (held s') \<le> length filepaths"
    using assms(1) by (simp add: items_ok_def)
  have "mset (map staged (held s')) + mset (map (uploaded w) (filter (succeeds w) (pending s')))
          = mset (map staged (held s)) + ({#uploaded w filepath#}
              + mset (map (uploaded w) (filter (succeeds w) (pending s'))))"
    using assms(5,7) by simp
  also have "{#uploaded w filepath#} + mset (map (uploaded w) (filter (succeeds w) (pending s')))
          = mset (map (uploaded w) (filter (succeeds w) (pending s)))"
    using assms(6) by (simp flip: assms(4))
  also have "mset (map staged (held s)) + mset (map (uploaded w) (filter (succeeds w) (pending s)))
          = mset (map (uploaded w) (filter (succeeds w) filepaths))"
    using assms(1) by (simp add: items_ok_def)
  finally have staged: "mset (map staged (held s'))
      + mset (map (uploaded w) (filter (succeeds w) (pending s')))
      = mset (map (uploaded w) (filter (succeeds w) filepaths))" .
  have cap: "aggregateCap s' = length filepaths"
    using assms(1,2) by (simp add: items_ok_def)
  have "held_ok (heapNext s') (held s')"
  proof -
    from assms(5) have "mset (held s') = mset (item # held s)" by simp
    then have "held_ok (heapNext s') (held s') = held_ok (heapNext s') (item # held s)"
      by (rule held_ok_mset)
    moreover from assms(1) have h: "held_ok (heapNext s) (held s)" by (simp add: items_ok_def)
    then have "addr item \<notin> addr ` set (held s)"
      using assms(8) by (auto simp: held_ok_def)
    with h assms(3,8,9) have "held_ok (heapNext s') (item # held s)"
      by (auto simp: held_ok_def)
    ultimately show ?thesis by simp
  qed
  with cap count staged show ?thesis unfolding items_ok_def by blast
qed

lemma items_ok_worker_step:
  assumes ok: "items_ok w filepaths s" and c: "control_ok s"
    and st: "worker_step w i s = Some s'"
  shows "items_ok w filepaths s'"
  using st
proof (cases rule: worker_stepE)
  case (recv filepath rest)
  from mset_concat_map_update [OF recv(1), of uploading_of "Uploading filepath"] recv(2)
  have "mset (in_flight s') = mset (in_flight s) + {#filepath#}"
    by (simp add: in_flight_def recv(4))
  with recv have p: "mset (pending s') = mset (pending s)"
    by (simp add: pending_def)
  from concat_map_update_same [OF recv(1), of sending_of "Uploading filepath"] recv(2)
  have "held s' = held s" by (simp add: held_def recv(4))
  with ok p recv(4) show ?thesis by (intro items_ok_same [OF ok]) simp_all
next
  case exit
  from concat_map_update_same [OF exit(1), of uploading_of Exited] exit(2)
  have "pending s' = pending s" by (simp add: pending_def in_flight_def exit(5))
  moreover from concat_map_update_same [OF exit(1), of sending_of Exited] exit(2)
  have "held s' = held s" by (simp add: held_def exit(5))
  ultimately show ?thesis using exit(5) by (intro items_ok_same [OF ok]) simp_all
next
  case exit_panic
  with working_not_closed [OF c exit_panic(1)] show ?thesis by simp
next
  case (failed filepath item err evs)
  from mset_concat_map_update [OF failed(1), of uploading_of Receiving] failed(2)
  have "mset (in_flight s') + {#filepath#} = mset (in_flight s)"
    by (simp add: in_flight_def failed(4))
  then have p: "mset (pending s') + {#filepath#} = mset (pending s)"
    by (simp add: pending_def failed(4))
  from concat_map_update_same [OF failed(1), of sending_of Receiving] failed(2)
  have "held s' = held s" by (simp add: held_def failed(4))
  with p UploadFile_failure [OF failed(3)] failed(4) show ?thesis
    by (intro items_ok_failed [OF ok, where filepath = filepath]) simp_all
next
  case (success filepath item evs)
  from mset_concat_map_update [OF success(1), of uploading_of "Sending item"] success(2)
  have "mset (in_flight s') + {#filepath#} = mset (in_flight s)"
    by (simp add: in_flight_def success(4))
  then have p: "mset (pending s') + {#filepath#} = mset (pending s)"
    by (simp add: pending_def success(4))
  from mset_concat_map_update [OF success(1), of sending_of "Sending item"] success(2)
  have "mset (held s') = mset (held s) + {#item#}"
    by (simp add: held_def success(4))
  with p UploadFile_success [OF success(3)] success(4) show ?thesis
    by (intro items_ok_success [OF ok, where filepath = filepath and item = item]) simp_all
next
  case (send_panic item)
  with working_not_closed [OF c send_panic(1)] show ?thesis by simp
next
  case (send item)
  from concat_map_update_same [OF send(1), of uploading_of Receiving] send(2)
  have "pending s' = pending s" by (simp add: pending_def in_flight_def send(5))
  moreover from mset_concat_map_update [OF send(1), of sending_of Receiving] send(2)
  have "mset (held s') = mset (held s)"
    by (simp add: held_def send(5))
  ultimately show ?thesis using send(5) by (intro items_ok_same [OF ok]) simp_all
qed

lemma items_ok_supervisor_step:
  assumes "items_ok w filepaths s" and "supervisor_step s = Some s'"
  shows "items_ok w filepaths s'"
  using assms(2)
proof (cases rule: supervisor_stepE)
  case close
  then show ?thesis
    by (intro items_ok_same [OF assms(1)]) (simp_all add: pending_def in_flight_def held_def)
qed

lemma elems_append_slice: "elems (append_slice xs x) = elems xs @ [x]"
  by (cases xs) simp_all

lemma items_ok_collector_step:
  assumes "items_ok w filepaths s" and "collector_step s = Some s'"
  shows "items_ok w filepaths s'"
  using assms(2)
proof (cases rule: collector_stepE)
  case (collect item rest)
  then show ?thesis
    by (intro items_ok_same [OF assms(1)])
       (simp_all add: pending_def in_flight_def held_def elems_append_slice)
next
  case return
  then show ?thesis
    by (intro items_ok_same [OF assms(1)]) (simp_all add: pending_def in_flight_def held_def)
qed

lemma invariant_step:
  assumes "invariant w filepaths s" and "step w x s = Some s'"
  shows "invariant w filepaths s'"
proof (cases x)
  case (Worker i)
  with assms show ?thesis
    by (auto simp: invariant_def step_def split: if_splits
             intro: control_ok_worker_step items_ok_worker_step)
next
  case Supervisor
  with assms show ?thesis
    by (auto simp: invariant_def step_def split: if_splits
             intro: control_ok_supervisor_step items_ok_supervisor_step)
next
  case Collector
  with assms show ?thesis
    by (auto simp: invariant_def step_def split: if_splits
             intro: control_ok_collector_step items_ok_collector_step)
qed

lemma invariant_exec:
  assumes "invariant w filepaths s" and "exec w sched s = Some s'"
  shows "invariant w filepaths s'"
  using assms
proof (induction sched arbitrary: s)
  case Nil
  then show ?case by simp
next
  case (Cons x sched)
  then show ?case
    by (cases "step w x s") (auto dest: invariant_step)
qed

lemma invariant_start: "invariant w filepaths (UploadFiles_start filepaths a)"
  by (simp add: invariant_def control_ok_def items_ok_def held_ok_def UploadFiles_start_def
                uploadConcurrency_def make_slice_def pending_def in_flight_def held_def)

lemma remaining_worker_step:
  assumes "worker_step w i s = Some s'" and "panicked s = None"
  shows "remaining s' < remaining s"
  using assms(1)
proof (cases rule: worker_stepE)
  case (recv filepath rest)
  from sum_list_map_update [OF recv(1), of rank "Uploading filepath"] recv(2)
  have "sum_list (map rank ((workers s)[i := Uploading filepath])) + 1
          = sum_list (map rank (workers s)) + 4" by simp
  with recv show ?thesis by (simp add: remaining_def)
next
  case exit
  from sum_list_map_update [OF exit(1), of rank Exited] exit(2)
  have "sum_list (map rank ((workers s)[i := Exited])) + 1 = sum_list (map rank (workers s))"
    by simp
  with exit show ?thesis by (simp add: remaining_def)
next
  case exit_panic
  with assms(2) show ?thesis by (simp add: remaining_def)
next
  case (failed filepath item err evs)
  from sum_list_map_update [OF failed(1), of rank Receiving] failed(2)
  have "sum_list (map rank ((workers s)[i := Receiving])) + 4
          = sum_list (map rank (workers s)) + 1" by simp
  with failed show ?thesis by (simp add: remaining_def)
next
  case (success filepath item evs)
  from sum_list_map_update [OF success(1), of rank "Sending item"] success(2)
  have "sum_list (map rank ((workers s)[i := Sending item])) + 4
          = sum_list (map rank (workers s)) + 3" by simp
  with success show ?thesis by (simp add: remaining_def)
next
  case (send_panic item)
  with assms(2) show ?thesis by (simp add: remaining_def)
next
  case (send item)
  from sum_list_map_update [OF send(1), of rank Receiving] send(2)
  have "sum_list (map rank ((workers s)[i := Receiving])) + 3
          = sum_list (map rank (workers s)) + 1" by simp
  with send show ?thesis by (simp add: remaining_def)
qed

lemma remaining_step:
  assumes "step w x s = Some s'"
  shows "remaining s' < remaining s"
proof -
  from assms have p: "panicked s = None" by (simp add: step_def split: if_splits)
  show ?thesis
  proof (cases x)
    case (Worker i)
    with assms p show ?thesis by (simp add: step_def remaining_worker_step)
  next
    case Supervisor
    with assms p have "supervisor_step s = Some s'" by (simp add: step_def)
    then show ?thesis by (cases rule: supervisor_stepE) (simp add: remaining_def)
  next
    case Collector
    with assms p have "collector_step s = Some s'" by (simp add: step_def)
    then show ?thesis by (cases rule: collector_stepE) (simp_all add: remaining_def)
  qed
qed

lemma remaining_exec:
  assumes "exec w sched s = Some s'"
  shows "remaining s' + length sched \<le> remaining s"
  using assms
proof (induction sched arbitrary: s)
  case Nil
  then show ?case by simp
next
  case (Cons x sched)
  then obtain t where t: "step w x s = Some t" and e: "exec w sched t = Some s'"
    by (cases "step w x s") auto
  from Cons.IH [OF e] remaining_step [OF t] show ?case by simp
qed

lemma schedule_bound:
  assumes "exec w sched (UploadFiles_start filepaths a) = Some s"
  shows "length sched \<le> 4 * length filepaths + 5"
proof -
  from invariant_exec [OF invariant_start assms] have "panicked s = None"
    by (simp add: invariant_def control_ok_def)
  then have "1 \<le> remaining s" by (simp add: remaining_def)
  moreover have "remaining (UploadFiles_start filepaths a) = 4 * length filepaths + 6"
    by (simp add: remaining_def UploadFiles_start_def uploadConcurrency_def sum_list_replicate)
  ultimately show ?thesis using remaining_exec [OF assms] by simp
qed

lemma all_exited:
  assumes "control_ok s" and "workerGroup s = 0"
  shows "in_flight s = [] \<and> concat (map sending_of (workers s)) = [] \<and> uploadQueue s = []"
proof -
  from assms have "filter (\<lambda>x. x \<noteq> Exited) (workers s) = []"
    by (simp add: control_ok_def)
  then have e: "\<forall>x\<in>set (workers s). x = Exited"
    by (simp add: filter_empty_conv)
  moreover from assms(1) have "workers s \<noteq> []"
    by (auto simp: control_ok_def uploadConcurrency_def)
  then obtain x where "x \<in> set (workers s)" by (cases "workers s") auto
  with e have "Exited \<in> set (workers s)" by auto
  with assms(1) have "uploadQueue s = []" by (simp add: control_ok_def)
  moreover from e have "concat (map uploading_of (workers s)) = []"
    and "concat (map sending_of (workers s)) = []" by auto
  ultimately show ?thesis by (simp add: in_flight_def)
qed

lemma sending_in_held:
  assumes "i < length (workers s)" and "workers s ! i = Sending item"
  shows "length (aggregateQueue s) < length (held s)"
proof -
  from assms have "Sending item \<in> set (workers s)" by (metis nth_mem)
  then have "item \<in> set (concat (map sending_of (workers s)))" by force
  then have "concat (map sending_of (workers s)) \<noteq> []"
    by (metis empty_iff empty_set)
  then show ?thesis by (simp add: held_def)
qed

lemma progress:
  assumes inv: "invariant w filepaths s" and r: "returned s = None"
  shows "\<exists>x s'. step w x s = Some s'"
proof -
  from inv have c: "control_ok s" and it: "items_ok w filepaths s"
    by (simp_all add: invariant_def)
  from c have p: "panicked s = None" by (simp add: control_ok_def)
  show ?thesis
  proof (cases "\<exists>i < length (workers s). workers s ! i \<noteq> Exited")
    case True
    then obtain i where i: "i < length (workers s)" "workers s ! i \<noteq> Exited" by blast
    from working_not_closed [OF c i] have nc: "\<not> aggregateClosed s" by simp
    have "\<exists>s'. worker_step w i s = Some s'"
    proof (cases "workers s ! i")
      case Receiving
      with i show ?thesis by (simp add: worker_step_def split: list.splits)
    next
      case (Uploading filepath)
      with i show ?thesis
        by (simp add: worker_step_def split: prod.splits option.splits)
    next
      case (Sending item)
      from sending_in_held [OF i(1) Sending] it
      have "length (aggregateQueue s) < aggregateCap s" by (simp add: items_ok_def)
      with i Sending nc show ?thesis by (simp add: worker_step_def)
    next
      case Exited
      with i show ?thesis by simp
    qed
    with p have "\<exists>s'. step w (Worker i) s = Some s'" by (simp add: step_def)
    then show ?thesis by blast
  next
    case False
    then have "filter (\<lambda>x. x \<noteq> Exited) (workers s) = []"
      by (auto simp: filter_empty_conv in_set_conv_nth)
    with c have g: "workerGroup s = 0" by (simp add: control_ok_def)
    show ?thesis
    proof (cases "aggregateClosed s")
      case False
      with g p have "step w Supervisor s = Some (s\<lparr>aggregateClosed := True\<rparr>)"
        by (simp add: step_def supervisor_step_def)
      then show ?thesis by blast
    next
      case True
      with r p have "\<exists>s'. step w Collector s = Some s'"
        by (simp add: step_def collector_step_def split: list.splits)
      then show ?thesis by blast
    qed
  qed
qed

lemma exec_append:
  "exec w (xs @ ys) s = (case exec w xs s of None \<Rightarrow> None | Some t \<Rightarrow> exec w ys t)"
  by (induction xs arbitrary: s) (auto split: option.splits)

lemma runs_to_return:
  assumes "invariant w filepaths s"
  shows "\<exists>sched s' r. exec w sched s = Some s' \<and> returned s' = Some r"
  using assms
proof (induction "remaining s" arbitrary: s rule: less_induct)
  case less
  show ?case
  proof (cases "returned s")
    case (Some r)
    then have "exec w [] s = Some s \<and> returned s = Some r" by simp
    then show ?thesis by blast
  next
    case None
    from progress [OF less.prems None] obtain x t where t: "step w x s = Some t" by blast
    from less.hyps [OF remaining_step [OF t] invariant_step [OF less.prems t]]
    obtain sched s' r where "exec w sched t = Some s'" "returned s' = Some r" by blast
    with t have "exec w (x # sched) s = Some s' \<and> returned s' = Some r" by simp
    then show ?thesis by blast
  qed
qed

lemma returned_result:
  assumes inv: "invariant w filepaths s" and r: "returned s = Some r"
  shows "r \<noteq> NilSlice \<and> length (elems r) \<le> length filepaths
         \<and> mset (map staged (elems r)) = mset (map (uploaded w) (filter (succeeds w) filepaths))
         \<and> distinct (map addr (elems r)) \<and> (\<forall>x\<in>set (elems r). well_formed x)"
proof -
  from inv have c: "control_ok s" and it: "items_ok w filepaths s"
    by (simp_all add: invariant_def)
  from c r have m: "r = mediaItems s" and q: "aggregateQueue s = []" and "aggregateClosed s"
    by (simp_all add: control_ok_def)
  with c have "workerGroup s = 0" unfolding control_ok_def by blast
  from all_exited [OF c this] q m have "pending s = []" and "held s = elems r"
    by (simp_all add: pending_def held_def)
  with it have "length (elems r) \<le> length filepaths"
    and "mset (map staged (elems r)) = mset (map (uploaded w) (filter (succeeds w) filepaths))"
    and "held_ok (heapNext s) (elems r)"
    by (simp_all add: items_ok_def)
  moreover from c m have "r \<noteq> NilSlice" by (simp add: control_ok_def)
  ultimately show ?thesis by (simp add: held_ok_def)
qed

lemma in_flight_bound: "length (concat (map uploading_of ws)) \<le> length ws"
proof (induction ws)
  case Nil
  then show ?case by simp
next
  case (Cons x ws)
  then show ?case by (cases x) simp_all
qed

text \<open>
  C1. From the start of \<open>UploadFiles\<close> on any list of paths, some schedule runs to the
  return; a schedule has at most four steps for each path and five more; a state that has
  not returned has a goroutine that can step; and what is returned has at most as many
  items as there are paths, stages exactly what the successful paths stage, each as many
  times as the path occurs in the input, holds no pointer twice, and holds only pointers
  that lead to a description and a token.
\<close>

theorem UploadFiles_returns_the_staged_items:
  "(\<exists>sched s r. exec w sched (UploadFiles_start filepaths a) = Some s \<and> returned s = Some r)
   \<and> (\<forall>sched s. exec w sched (UploadFiles_start filepaths a) = Some s \<longrightarrow>
          length sched \<le> 4 * length filepaths + 5
          \<and> (returned s = None \<longrightarrow> (\<exists>x s'. step w x s = Some s'))
          \<and> (\<forall>r. returned s = Some r \<longrightarrow>
                length (elems r) \<le> length filepaths
                \<and> mset (map staged (elems r))
                    = mset (map (uploaded w) (filter (succeeds w) filepaths))
                \<and> distinct (map addr (elems r))
                \<and> (\<forall>x\<in>set (elems r). well_formed x)))"
proof (intro conjI allI impI)
  show "\<exists>sched s r. exec w sched (UploadFiles_start filepaths a) = Some s \<and> returned s = Some r"
    by (rule runs_to_return [OF invariant_start])
next
  fix sched s
  assume e: "exec w sched (UploadFiles_start filepaths a) = Some s"
  note inv = invariant_exec [OF invariant_start e]
  show "length sched \<le> 4 * length filepaths + 5"
    by (rule schedule_bound [OF e])
  show "\<exists>x s'. step w x s = Some s'" if "returned s = None"
    by (rule progress [OF inv that])
  fix r
  assume r: "returned s = Some r"
  note res = returned_result [OF inv r]
  from res show "length (elems r) \<le> length filepaths" by blast
  from res show "mset (map staged (elems r))
      = mset (map (uploaded w) (filter (succeeds w) filepaths))" by blast
  from res show "distinct (map addr (elems r))" by blast
  from res show "\<forall>x\<in>set (elems r). well_formed x" by blast
qed

lemma test_run:
  "map_option returned (exec test_world test_schedule (UploadFiles_start test_paths 0))
     = Some (Some (Slice
         [Ptr 1 \<lparr>Description = ''ok2.jpg'',
                 SimpleMediaItem = Ptr 0 \<lparr>SimpleMediaItem.UploadToken = ''t2''\<rparr>\<rparr>,
          Ptr 3 \<lparr>Description = ''ok1.jpg'',
                 SimpleMediaItem = Ptr 2 \<lparr>SimpleMediaItem.UploadToken = ''t1''\<rparr>\<rparr>]))"
  by code_simp

lemma test_uploaded:
  "map (uploaded test_world) (filter (succeeds test_world) test_paths)
     = [Some (''ok1.jpg'', ''t1''), Some (''ok2.jpg'', ''t2'')]"
  by code_simp

theorem UploadFiles_returns_the_staged_items_witness:
  "(\<exists>s. exec test_world test_schedule (UploadFiles_start test_paths 0) = Some s
        \<and> returned s = Some (Slice
             [Ptr 1 \<lparr>Description = ''ok2.jpg'',
                     SimpleMediaItem = Ptr 0 \<lparr>SimpleMediaItem.UploadToken = ''t2''\<rparr>\<rparr>,
              Ptr 3 \<lparr>Description = ''ok1.jpg'',
                     SimpleMediaItem = Ptr 2 \<lparr>SimpleMediaItem.UploadToken = ''t1''\<rparr>\<rparr>]))
   \<and> length test_schedule \<le> 4 * length test_paths + 5
   \<and> mset [Some (''ok2.jpg'', ''t2''), Some (''ok1.jpg'', ''t1'')]
       = mset (map (uploaded test_world) (filter (succeeds test_world) test_paths))"
proof -
  let ?r = "Slice
     [Ptr 1 \<lparr>Description = ''ok2.jpg'',
             SimpleMediaItem = Ptr 0 \<lparr>SimpleMediaItem.UploadToken = ''t2''\<rparr>\<rparr>,
      Ptr 3 \<lparr>Description = ''ok1.jpg'',
             SimpleMediaItem = Ptr 2 \<lparr>SimpleMediaItem.UploadToken = ''t1''\<rparr>\<rparr>]"
  from test_run obtain s where
    s: "exec test_world test_schedule (UploadFiles_start test_paths 0) = Some s"
    and r: "returned s = Some ?r"
    by auto
  note t = UploadFiles_returns_the_staged_items [of test_world test_paths 0]
  from t s have "length test_schedule \<le> 4 * length test_paths + 5" by blast
  moreover from t s r have "mset (map staged (elems ?r))
      = mset (map (uploaded test_world) (filter (succeeds test_world) test_paths))"
    by blast
  then have "mset [Some (''ok2.jpg'', ''t2''), Some (''ok1.jpg'', ''t1'')]
      = mset (map (uploaded test_world) (filter (succeeds test_world) test_paths))"
    by simp
  ultimately show ?thesis using s r by blast
qed

text \<open>
  C2. The number of workers is the constant 3, whatever the paths; in every state that a
  schedule reaches there are three workers, and at most three calls of \<open>UploadFile\<close> have
  started and not returned.
\<close>

theorem UploadFiles_three_workers:
  "uploadConcurrency = 3
   \<and> workers (UploadFiles_start filepaths a) = replicate 3 Receiving
   \<and> (\<forall>sched s. exec w sched (UploadFiles_start filepaths a) = Some s \<longrightarrow>
          length (workers s) = 3 \<and> length (in_flight s) \<le> 3)"
proof (intro conjI allI impI)
  show "uploadConcurrency = 3" by (simp add: uploadConcurrency_def)
  show "workers (UploadFiles_start filepaths a) = replicate 3 Receiving"
    by (simp add: UploadFiles_start_def uploadConcurrency_def)
  fix sched s
  assume "exec w sched (UploadFiles_start filepaths a) = Some s"
  from invariant_exec [OF invariant_start this]
  show n: "length (workers s) = 3"
    by (simp add: invariant_def control_ok_def uploadConcurrency_def)
  from in_flight_bound [of "workers s"] n show "length (in_flight s) \<le> 3"
    by (simp add: in_flight_def)
qed

lemma test_in_flight:
  "map_option in_flight (exec test_world (take 3 test_schedule) (UploadFiles_start test_paths 0))
     = Some [''ok1.jpg'', ''bad.jpg'', ''ok2.jpg'']"
  by code_simp

theorem UploadFiles_three_workers_witness:
  "\<exists>s. exec test_world (take 3 test_schedule) (UploadFiles_start test_paths 0) = Some s
       \<and> in_flight s = [''ok1.jpg'', ''bad.jpg'', ''ok2.jpg'']
       \<and> length (workers s) = 3 \<and> length (in_flight s) \<le> 3"
proof -
  from test_in_flight obtain s where
    s: "exec test_world (take 3 test_schedule) (UploadFiles_start test_paths 0) = Some s"
    and f: "in_flight s = [''ok1.jpg'', ''bad.jpg'', ''ok2.jpg'']"
    by auto
  from UploadFiles_three_workers [of test_paths 0 test_world] s
  have "length (workers s) = 3 \<and> length (in_flight s) \<le> 3" by blast
  with s f show ?thesis by blast
qed

text \<open>
  C5. When no path of the input is uploaded with success, and so for the empty input,
  some schedule runs to the return of the empty slice; no schedule panics; a state that
  has not returned has a goroutine that can step; and what is returned is the empty
  slice, which is not \<open>nil\<close>.
\<close>

theorem UploadFiles_nothing_staged:
  assumes "\<forall>p\<in>set filepaths. \<not> succeeds w p"
  shows "(\<exists>sched s. exec w sched (UploadFiles_start filepaths a) = Some s
            \<and> returned s = Some (Slice []))
         \<and> (\<forall>sched s. exec w sched (UploadFiles_start filepaths a) = Some s \<longrightarrow>
               panicked s = None
               \<and> (returned s = None \<longrightarrow> (\<exists>x s'. step w x s = Some s'))
               \<and> (\<forall>r. returned s = Some r \<longrightarrow> r = Slice [] \<and> r \<noteq> NilSlice))"
proof -
  from assms have none: "filter (succeeds w) filepaths = []"
    by (simp add: filter_empty_conv)
  have empty: "r = Slice []"
    if "exec w sched (UploadFiles_start filepaths a) = Some s" and "returned s = Some r"
    for sched s r
  proof -
    from returned_result [OF invariant_exec [OF invariant_start that(1)] that(2)] none
    have "r \<noteq> NilSlice" and "mset (map staged (elems r)) = {#}" by simp_all
    then show ?thesis by (cases r) simp_all
  qed
  from runs_to_return [OF invariant_start, of w filepaths a] obtain sched s r
    where "exec w sched (UploadFiles_start filepaths a) = Some s" "returned s = Some r"
    by blast
  with empty have first: "\<exists>sched s. exec w sched (UploadFiles_start filepaths a) = Some s
      \<and> returned s = Some (Slice [])" by blast
  have second: "panicked s = None
      \<and> (returned s = None \<longrightarrow> (\<exists>x s'. step w x s = Some s'))
      \<and> (\<forall>r. returned s = Some r \<longrightarrow> r = Slice [] \<and> r \<noteq> NilSlice)"
    if e: "exec w sched (UploadFiles_start filepaths a) = Some s" for sched s
  proof -
    note inv = invariant_exec [OF invariant_start e]
    then have "panicked s = None" by (simp add: invariant_def control_ok_def)
    moreover have "\<exists>x s'. step w x s = Some s'" if "returned s = None"
      by (rule progress [OF inv that])
    moreover have "r = Slice [] \<and> r \<noteq> NilSlice" if "returned s = Some r" for r
      using empty [OF e that] by simp
    ultimately show ?thesis by blast
  qed
  from first second show ?thesis by blast
qed

lemma test_failing_run:
  "map_option (\<lambda>s. (returned s, panicked s))
     (exec test_world failing_schedule (UploadFiles_start [''bad.jpg'', ''big.jpg''] 0))
     = Some (Some (Slice []), None)"
  by code_simp

lemma test_idle_run:
  "map_option (\<lambda>s. (returned s, panicked s))
     (exec test_world idle_schedule (UploadFiles_start [] 0))
     = Some (Some (Slice []), None)"
  by code_simp

lemma test_all_fail: "\<forall>p\<in>set [''bad.jpg'', ''big.jpg'']. \<not> succeeds test_world p"
  by code_simp

theorem UploadFiles_nothing_staged_witness:
  "(\<exists>s. exec test_world failing_schedule (UploadFiles_start [''bad.jpg'', ''big.jpg''] 0) = Some s
        \<and> returned s = Some (Slice []) \<and> panicked s = None)
   \<and> (\<exists>s. exec test_world idle_schedule (UploadFiles_start [] 0) = Some s
        \<and> returned s = Some (Slice []) \<and> panicked s = None)"
proof -
  from test_failing_run obtain s where
    s: "exec test_world failing_schedule (UploadFiles_start [''bad.jpg'', ''big.jpg''] 0) = Some s"
    and "returned s \<noteq> None" by auto
  then obtain r where r: "returned s = Some r" by auto
  from UploadFiles_nothing_staged [OF test_all_fail, of 0] s r
  have "returned s = Some (Slice []) \<and> panicked s = None" by blast
  with s have first: "\<exists>s. exec test_world failing_schedule
      (UploadFiles_start [''bad.jpg'', ''big.jpg''] 0) = Some s
      \<and> returned s = Some (Slice []) \<and> panicked s = None" by blast
  from test_idle_run obtain s' where
    s': "exec test_world idle_schedule (UploadFiles_start [] 0) = Some s'"
    and "returned s' \<noteq> None" by auto
  then obtain r' where r': "returned s' = Some r'" by auto
  have "\<forall>p\<in>set []. \<not> succeeds test_world p" by simp
  from UploadFiles_nothing_staged [OF this, of 0] s' r'
  have "returned s' = Some (Slice []) \<and> panicked s' = None" by blast
  with s' have "\<exists>s. exec test_world idle_schedule (UploadFiles_start [] 0) = Some s
      \<and> returned s = Some (Slice []) \<and> panicked s = None" by blast
  with first show ?thesis by blast
qed

end
